theory Spec2Isabelle
  imports Main "HOL-Library.Multiset"
begin

section \<open>The d-ary max-heap of main.c\<close>

text \<open>
  The heap of \<^verbatim>\<open>src/main.c\<close> is a C struct holding an inline array of
  \<^verbatim>\<open>MAX_CAPACITY\<close> ints, the number \<^verbatim>\<open>size\<close> of valid slots and the degree
  \<^verbatim>\<open>d\<close>. All three are C \<^verbatim>\<open>int\<close>s. The model keeps them as mathematical
  integers and writes out, as the error \<open>Undefined\<close>, every place where the C
  program would leave the defined behaviour of the language: a signed overflow
  in index arithmetic, a division by zero, and an array access outside
  \<^verbatim>\<open>0 .. MAX_CAPACITY - 1\<close>. The four calls of \<^verbatim>\<open>exit(EXIT_FAILURE)\<close> are the
  errors \<open>Overflow\<close>, \<open>Underflow\<close>, \<open>InvalidKey\<close> and \<open>IndexOutOfBounds\<close>,
  named after the message printed before the exit. An error carries the heap as
  it is at the moment the operation stops.
\<close>

subsection \<open>Constants and C integers\<close>

definition MAX_CAPACITY :: int where
  "MAX_CAPACITY = 5000"

definition ROOT :: int where
  "ROOT = 0"

definition INT_MAX :: int where
  "INT_MAX = 2147483647"

definition INT_MIN :: int where
  "INT_MIN = - 2147483648"

text \<open>The values a C \<^verbatim>\<open>int\<close> can hold.\<close>

definition c_int :: "int \<Rightarrow> bool" where
  "c_int x = (INT_MIN \<le> x \<and> x \<le> INT_MAX)"

text \<open>C division truncates towards zero.\<close>

definition c_div :: "int \<Rightarrow> int \<Rightarrow> int" where
  "c_div a b = sgn a * sgn b * (\<bar>a\<bar> div \<bar>b\<bar>)"

lemma c_div_pos: "0 \<le> a \<Longrightarrow> 0 < b \<Longrightarrow> c_div a b = a div b"
  by (cases "a = 0") (simp_all add: c_div_def)

lemma c_div_abs_le: "b \<noteq> 0 \<Longrightarrow> \<bar>c_div a b\<bar> \<le> \<bar>a\<bar>"
proof -
  assume "b \<noteq> 0"
  then have "1 \<le> \<bar>b\<bar>" by simp
  have "\<bar>a\<bar> div \<bar>b\<bar> \<le> \<bar>a\<bar> div 1"
    by (rule zdiv_mono2) (use \<open>1 \<le> \<bar>b\<bar>\<close> in simp_all)
  moreover have "0 \<le> \<bar>a\<bar> div \<bar>b\<bar>"
    using \<open>1 \<le> \<bar>b\<bar>\<close> by (intro pos_imp_zdiv_nonneg_iff [THEN iffD2]) simp_all
  ultimately show ?thesis
    by (simp add: c_div_def abs_mult abs_sgn_eq)
qed

text \<open>The indices of \<^verbatim>\<open>int array[MAX_CAPACITY]\<close>.\<close>

definition in_array :: "int \<Rightarrow> bool" where
  "in_array i = (0 \<le> i \<and> i < MAX_CAPACITY)"

subsection \<open>The heap and the results of its operations\<close>

text \<open>
  The struct \<^verbatim>\<open>Heap\<close>. Its fields \<^verbatim>\<open>size\<close> and \<^verbatim>\<open>d\<close> are written \<open>size_h\<close> and
  \<open>d_h\<close>: \<open>size\<close> is a constant of HOL, and \<open>d\<close> is the name of the degree where
  it stands alone. For the same reason \<^verbatim>\<open>insert\<close> is written \<open>insert_h\<close>.
\<close>

record Heap =
  array :: "int list"
  size_h :: int
  d_h :: int

datatype error = Overflow | Underflow | InvalidKey | IndexOutOfBounds | Undefined

type_synonym 'a result = "(error \<times> Heap) + 'a"

text \<open>
  \<^verbatim>\<open>swap(&heap->array[i], &heap->array[j])\<close>: \<^verbatim>\<open>temp = *x; *x = *y; *y = temp\<close>.
\<close>

definition swap :: "int list \<Rightarrow> int \<Rightarrow> int \<Rightarrow> int list" where
  "swap xs i j = (xs[nat i := xs ! nat j])[nat j := xs ! nat i]"

text \<open>\<^verbatim>\<open>child\<close> returns \<^verbatim>\<open>d * i + k\<close>, computed in \<^verbatim>\<open>int\<close>.\<close>

definition child :: "int \<Rightarrow> int \<Rightarrow> int \<Rightarrow> int option" where
  "child i k d =
     (if c_int (d * i) \<and> c_int (d * i + k) then Some (d * i + k) else None)"

text \<open>\<^verbatim>\<open>parent\<close> returns \<^verbatim>\<open>(i-1)/d\<close>, computed in \<^verbatim>\<open>int\<close>.\<close>

definition parent :: "int \<Rightarrow> int \<Rightarrow> int option" where
  "parent i d =
     (if d = 0 \<or> \<not> c_int (i - 1) \<or> (i - 1 = INT_MIN \<and> d = - 1) then None
      else Some (c_div (i - 1) d))"

subsection \<open>dmaxHeapify\<close>

text \<open>
  The \<^verbatim>\<open>for\<close> loop of \<^verbatim>\<open>dmaxHeapify\<close> (lines 93-99), from the value \<open>j\<close> of its
  counter on: it returns the final value of \<^verbatim>\<open>largest\<close>. The test
  \<^verbatim>\<open>childrens < heap->size && ...\<close> reads the array only when its first half
  holds; \<^verbatim>\<open>++j\<close> overflows when \<open>j\<close> is \<^verbatim>\<open>INT_MAX\<close>.
\<close>

function dmaxHeapify_for :: "Heap \<Rightarrow> int \<Rightarrow> int \<Rightarrow> int \<Rightarrow> int result" where
  "dmaxHeapify_for heap i j largest =
     (if j \<le> d_h heap then
        (case child i j (d_h heap) of
           None \<Rightarrow> Inl (Undefined, heap)
         | Some childrens \<Rightarrow>
             (if childrens < size_h heap then
                (if in_array childrens \<and> in_array largest then
                   (if INT_MAX \<le> j then Inl (Undefined, heap)
                    else dmaxHeapify_for heap i (j + 1)
                           (if array heap ! nat childrens > array heap ! nat largest
                            then childrens else largest))
                 else Inl (Undefined, heap))
              else
                (if INT_MAX \<le> j then Inl (Undefined, heap)
                 else dmaxHeapify_for heap i (j + 1) largest)))
      else Inr largest)"
  by pat_completeness auto
termination
  by (relation "measure (\<lambda>(heap, i, j, largest). nat (d_h heap + 1 - j))") auto

declare dmaxHeapify_for.simps [simp del]


text \<open>
  One round of the loop, read off a run that returned: the child index was
  computed, the array was read inside its bounds, the counter was stepped.
\<close>

lemma dmaxHeapify_for_unfold:
  "dmaxHeapify_for heap i j largest = Inr l \<Longrightarrow> j \<le> d_h heap \<Longrightarrow>
     child i j (d_h heap) = Some (d_h heap * i + j) \<and> j < INT_MAX \<and>
     (if d_h heap * i + j < size_h heap
      then in_array (d_h heap * i + j) \<and> in_array largest \<and>
           dmaxHeapify_for heap i (j + 1)
             (if array heap ! nat (d_h heap * i + j) > array heap ! nat largest
              then d_h heap * i + j else largest) = Inr l
      else dmaxHeapify_for heap i (j + 1) largest = Inr l)"
  by (subst (asm) dmaxHeapify_for.simps)
     (auto simp: child_def split: if_splits option.splits)

lemma dmaxHeapify_for_stop:
  "\<not> j \<le> d_h heap \<Longrightarrow> dmaxHeapify_for heap i j largest = Inr largest"
  by (subst dmaxHeapify_for.simps) simp

lemma dmaxHeapify_for_range:
  "dmaxHeapify_for heap i j largest = Inr l \<Longrightarrow>
     l = largest \<or>
     (\<exists>k. j \<le> k \<and> k \<le> d_h heap \<and> l = d_h heap * i + k \<and> l < size_h heap \<and>
          in_array l \<and> in_array largest)"
proof (induction heap i j largest rule: dmaxHeapify_for.induct)
  case (1 heap i j largest)
  show ?case
  proof (cases "j \<le> d_h heap")
    case False
    with "1.prems" show ?thesis by (simp add: dmaxHeapify_for_stop)
  next
    case jd: True
    note u = dmaxHeapify_for_unfold [OF "1.prems" jd]
    let ?c = "d_h heap * i + j"
    from u have c: "child i j (d_h heap) = Some ?c" and nj: "\<not> INT_MAX \<le> j" by auto
    show ?thesis
    proof (cases "?c < size_h heap")
      case True
      let ?l' = "if array heap ! nat ?c > array heap ! nat largest then ?c else largest"
      from u True have ok: "in_array ?c" "in_array largest"
        and rec: "dmaxHeapify_for heap i (j + 1) ?l' = Inr l" by auto
      from "1.IH"(1) [OF jd c True _ nj rec] ok
      have "l = ?l' \<or> (\<exists>k. j + 1 \<le> k \<and> k \<le> d_h heap \<and> l = d_h heap * i + k \<and>
                 l < size_h heap \<and> in_array l \<and> in_array ?l')" by simp
      then show ?thesis
      proof
        assume "l = ?l'"
        with True ok jd show ?thesis by (auto split: if_splits)
      next
        assume "\<exists>k. j + 1 \<le> k \<and> k \<le> d_h heap \<and> l = d_h heap * i + k \<and>
                 l < size_h heap \<and> in_array l \<and> in_array ?l'"
        then obtain k where "j + 1 \<le> k" "k \<le> d_h heap" "l = d_h heap * i + k"
          "l < size_h heap" "in_array l" by blast
        with ok have "j \<le> k \<and> k \<le> d_h heap \<and> l = d_h heap * i + k \<and> l < size_h heap \<and>
          in_array l \<and> in_array largest" by simp
        then show ?thesis by blast
      qed
    next
      case False
      with u have rec: "dmaxHeapify_for heap i (j + 1) largest = Inr l" by simp
      from "1.IH"(2) [OF jd c False nj rec]
      show ?thesis by (auto intro: order_trans [of j "j + 1"])
    qed
  qed
qed

lemma dmaxHeapify_for_above:
  assumes "dmaxHeapify_for heap i 1 i = Inr l" "l \<noteq> i"
  shows "i < l \<and> in_array i \<and> in_array l \<and> l < size_h heap \<and> 1 \<le> d_h heap"
proof -
  from dmaxHeapify_for_range [OF assms(1)] assms(2)
  obtain k where k: "1 \<le> k" "k \<le> d_h heap" "l = d_h heap * i + k" "l < size_h heap"
    "in_array l" "in_array i" by blast
  from k have "0 \<le> i" "1 \<le> d_h heap" by (simp_all add: in_array_def)
  then have "i \<le> d_h heap * i" by (simp add: mult_le_cancel_right1)
  with k show ?thesis by simp
qed


text \<open>
  The \<^verbatim>\<open>while (1)\<close> loop of \<^verbatim>\<open>dmaxHeapify\<close>. It goes on only after a swap with a
  child, whose index is above \<open>i\<close> and inside the array, which bounds the number
  of rounds.
\<close>

function dmaxHeapify :: "Heap \<Rightarrow> int \<Rightarrow> Heap result" where
  "dmaxHeapify heap i =
     (case dmaxHeapify_for heap i 1 i of
        Inl e \<Rightarrow> Inl e
      | Inr largest \<Rightarrow>
          (if largest \<noteq> i
           then dmaxHeapify (heap\<lparr>array := swap (array heap) i largest\<rparr>) largest
           else Inr heap))"
  by pat_completeness auto
termination
proof (relation "measure (\<lambda>(heap, i). nat (MAX_CAPACITY - i))")
  show "wf (measure (\<lambda>(heap, i). nat (MAX_CAPACITY - i)))" by simp
next
  fix heap :: Heap and i largest :: int
  assume "dmaxHeapify_for heap i 1 i = Inr largest" "largest \<noteq> i"
  from dmaxHeapify_for_above [OF this]
  show "((heap\<lparr>array := swap (array heap) i largest\<rparr>, largest), (heap, i))
          \<in> measure (\<lambda>(heap, i). nat (MAX_CAPACITY - i))"
    by (simp add: in_array_def)
qed

declare dmaxHeapify.simps [simp del]

subsection \<open>heapExtractMax\<close>

definition heapExtractMax :: "Heap \<Rightarrow> (int \<times> Heap) result" where
  "heapExtractMax heap =
     (if size_h heap < 1 then Inl (Underflow, heap)
      else if \<not> in_array (size_h heap - 1) then Inl (Undefined, heap)
      else
        (let mx = array heap ! nat ROOT;
             heap1 = heap\<lparr>array := (array heap)[nat ROOT := array heap ! nat (size_h heap - 1)]\<rparr>;
             heap2 = heap1\<lparr>size_h := size_h heap1 - 1\<rparr>
         in case dmaxHeapify heap2 ROOT of
              Inl e \<Rightarrow> Inl e
            | Inr heap3 \<Rightarrow> Inr (mx, heap3)))"

subsection \<open>insert and increaseKey\<close>

text \<open>
  The \<^verbatim>\<open>while\<close> loop that ends \<^verbatim>\<open>insert\<close> (lines 154-158) and, word for word,
  \<^verbatim>\<open>increaseKey\<close> (lines 178-182). \<^verbatim>\<open>i > ROOT && ...\<close> calls \<^verbatim>\<open>parent\<close> and reads
  the array only when \<open>i\<close> is above the root.
\<close>

function sift_up :: "Heap \<Rightarrow> int \<Rightarrow> Heap result" where
  "sift_up heap i =
     (if i > ROOT then
        (case parent i (d_h heap) of
           None \<Rightarrow> Inl (Undefined, heap)
         | Some p \<Rightarrow>
             (if in_array p \<and> in_array i then
                (if array heap ! nat p < array heap ! nat i
                 then sift_up (heap\<lparr>array := swap (array heap) i p\<rparr>) p
                 else Inr heap)
              else Inl (Undefined, heap)))
      else Inr heap)"
  by pat_completeness auto
termination
proof (relation "measure (\<lambda>(heap, i). nat i)")
  show "wf (measure (\<lambda>(heap, i). nat i))" by simp
next
  fix heap :: Heap and i p :: int
  assume i: "ROOT < i" and p: "parent i (d_h heap) = Some p" and "in_array p \<and> in_array i"
  from p have "p = c_div (i - 1) (d_h heap)" "d_h heap \<noteq> 0"
    by (auto simp: parent_def split: if_splits)
  moreover have "\<bar>c_div (i - 1) (d_h heap)\<bar> \<le> \<bar>i - 1\<bar>"
    using \<open>d_h heap \<noteq> 0\<close> by (rule c_div_abs_le)
  ultimately have "p < i" using i by (simp add: ROOT_def)
  with i show "((heap\<lparr>array := swap (array heap) i p\<rparr>, p), (heap, i)) \<in> measure (\<lambda>(heap, i). nat i)"
    by (simp add: ROOT_def)
qed

declare sift_up.simps [simp del]

definition insert_h :: "Heap \<Rightarrow> int \<Rightarrow> Heap result" where
  "insert_h heap key =
     (if size_h heap = MAX_CAPACITY then Inl (Overflow, heap)
      else if \<not> in_array (size_h heap) then Inl (Undefined, heap)
      else
        (let heap1 = heap\<lparr>array := (array heap)[nat (size_h heap) := key]\<rparr>;
             i = size_h heap1;
             heap2 = heap1\<lparr>size_h := size_h heap1 + 1\<rparr>
         in sift_up heap2 i))"

definition increaseKey :: "Heap \<Rightarrow> int \<Rightarrow> int \<Rightarrow> Heap result" where
  "increaseKey heap i key =
     (if \<not> in_array i then Inl (Undefined, heap)
      else if key < array heap ! nat i then Inl (InvalidKey, heap)
      else sift_up (heap\<lparr>array := (array heap)[nat i := key]\<rparr>) i)"

subsection \<open>buildMaxHeap and delete\<close>

text \<open>The \<^verbatim>\<open>for\<close> loop of \<^verbatim>\<open>buildMaxHeap\<close>, from the value \<open>i\<close> of its counter on.\<close>

function buildMaxHeap_for :: "Heap \<Rightarrow> int \<Rightarrow> Heap result" where
  "buildMaxHeap_for heap i =
     (if i \<ge> 0 then
        (case dmaxHeapify heap i of
           Inl e \<Rightarrow> Inl e
         | Inr heap' \<Rightarrow> buildMaxHeap_for heap' (i - 1))
      else Inr heap)"
  by pat_completeness auto
termination
  by (relation "measure (\<lambda>(heap, i). nat (i + 1))") auto

declare buildMaxHeap_for.simps [simp del]

definition buildMaxHeap :: "Heap \<Rightarrow> Heap result" where
  "buildMaxHeap heap =
     (if d_h heap = 0 \<or> (size_h heap = INT_MIN \<and> d_h heap = - 1)
         \<or> \<not> c_int (c_div (size_h heap) (d_h heap) - 1)
      then Inl (Undefined, heap)
      else buildMaxHeap_for heap (c_div (size_h heap) (d_h heap) - 1))"

definition delete :: "Heap \<Rightarrow> int \<Rightarrow> Heap result" where
  "delete heap index =
     (if index \<ge> size_h heap then Inl (IndexOutOfBounds, heap)
      else
        (case increaseKey heap index INT_MAX of
           Inl e \<Rightarrow> Inl e
         | Inr heap1 \<Rightarrow>
             (case heapExtractMax heap1 of
                Inl e \<Rightarrow> Inl e
              | Inr (mx, heap2) \<Rightarrow> Inr heap2)))"

text \<open>\<^verbatim>\<open>printHeap\<close> writes the valid elements, in array order.\<close>

definition printHeap :: "Heap \<Rightarrow> int list" where
  "printHeap heap = take (nat (size_h heap)) (array heap)"

subsection \<open>The callers in main\<close>

text \<open>
  The heap \<^verbatim>\<open>main\<close> hands to \<^verbatim>\<open>buildMaxHeap\<close>: \<^verbatim>\<open>readHeapsFromFile\<close> stores the
  numbers of one line, in order, from slot 0 on and counts them in \<^verbatim>\<open>size\<close>, and
  \<^verbatim>\<open>main\<close> stores the degree the user chose. The slots from \<^verbatim>\<open>size\<close> on are never
  written; the model takes 0 for them.
\<close>

definition heap_of :: "int list \<Rightarrow> int \<Rightarrow> Heap" where
  "heap_of xs d =
     \<lparr>array = xs @ replicate (nat MAX_CAPACITY - length xs) 0,
      size_h = int (length xs), d_h = d\<rparr>"

text \<open>Choice 1 of the menu, once for each key of a list.\<close>

fun insert_all :: "Heap \<Rightarrow> int list \<Rightarrow> Heap result" where
  "insert_all heap [] = Inr heap"
| "insert_all heap (key # keys) =
     (case insert_h heap key of
        Inl e \<Rightarrow> Inl e
      | Inr heap' \<Rightarrow> insert_all heap' keys)"

text \<open>Choice 3 of the menu, \<open>n\<close> times: the keys extracted, in the order they came.\<close>

fun extract_n :: "nat \<Rightarrow> Heap \<Rightarrow> (int list \<times> Heap) result" where
  "extract_n 0 heap = Inr ([], heap)"
| "extract_n (Suc n) heap =
     (case heapExtractMax heap of
        Inl e \<Rightarrow> Inl e
      | Inr (mx, heap') \<Rightarrow>
          (case extract_n n heap' of
             Inl e \<Rightarrow> Inl e
           | Inr (rest, heap'') \<Rightarrow> Inr (mx # rest, heap'')))"

section \<open>Invariants\<close>

text \<open>
  What holds of every \<^verbatim>\<open>Heap\<close> the C program works on: the array has its
  \<^verbatim>\<open>MAX_CAPACITY\<close> slots, each slot and the degree hold a C \<^verbatim>\<open>int\<close>, and the
  size lies between 0 and the capacity.
\<close>

definition heap_wf :: "Heap \<Rightarrow> bool" where
  "heap_wf heap =
     (length (array heap) = nat MAX_CAPACITY \<and> 0 \<le> size_h heap \<and>
      size_h heap \<le> MAX_CAPACITY \<and> c_int (d_h heap) \<and> list_all c_int (array heap))"

text \<open>
  The max-heap property: every valid index \<open>i\<close> holds a value at least that of
  each of its children \<open>d * i + k\<close>, \<open>k\<close> from 1 to \<open>d\<close>, below the size.
\<close>

definition max_heap :: "Heap \<Rightarrow> bool" where
  "max_heap heap =
     (\<forall>i\<in>{0..<size_h heap}. \<forall>k\<in>{1..d_h heap}.
        d_h heap * i + k < size_h heap \<longrightarrow>
        array heap ! nat (d_h heap * i + k) \<le> array heap ! nat i)"

text \<open>
  The child indices \<open>d * i + 1\<close>, ..., \<open>d * i + d\<close> of every node \<open>i\<close> below \<open>n\<close>,
  and the last value \<open>d + 1\<close> of the counter of the scan, are C \<^verbatim>\<open>int\<close>s.
\<close>

definition child_fits :: "Heap \<Rightarrow> int \<Rightarrow> bool" where
  "child_fits heap n = (d_h heap < INT_MAX \<and> d_h heap * n \<le> INT_MAX)"

text \<open>
  The property read from the child to its parent \<open>(c - 1) div d\<close>, and its two
  weakenings with one node \<open>i\<close> out of place: too small for its children
  (before \<^verbatim>\<open>dmaxHeapify\<close>), or too large for its parent (before the loop that
  ends \<^verbatim>\<open>insert\<close> and \<^verbatim>\<open>increaseKey\<close>).
\<close>

definition ordered :: "int list \<Rightarrow> int \<Rightarrow> int \<Rightarrow> bool" where
  "ordered xs n d = (\<forall>c. 1 \<le> c \<and> c < n \<longrightarrow> xs ! nat c \<le> xs ! nat ((c - 1) div d))"

definition ordered_down :: "int list \<Rightarrow> int \<Rightarrow> int \<Rightarrow> int \<Rightarrow> bool" where
  "ordered_down xs n d i =
     (\<forall>c. 1 \<le> c \<and> c < n \<longrightarrow>
        (if (c - 1) div d = i then 1 \<le> i \<longrightarrow> xs ! nat c \<le> xs ! nat ((i - 1) div d)
         else xs ! nat c \<le> xs ! nat ((c - 1) div d)))"

definition ordered_up :: "int list \<Rightarrow> int \<Rightarrow> int \<Rightarrow> int \<Rightarrow> bool" where
  "ordered_up xs n d i =
     (\<forall>c. 1 \<le> c \<and> c < n \<longrightarrow>
        (c \<noteq> i \<longrightarrow> xs ! nat c \<le> xs ! nat ((c - 1) div d)) \<and>
        ((c - 1) div d = i \<and> 1 \<le> i \<longrightarrow> xs ! nat c \<le> xs ! nat ((i - 1) div d)))"

text \<open>
  A call terminates when it returns or stops with one of the four errors of the
  program; \<open>Undefined\<close> stands for a run on which C promises nothing.
\<close>

definition terminates :: "'a result \<Rightarrow> bool" where
  "terminates r = (case r of Inl (e, s) \<Rightarrow> e \<noteq> Undefined | Inr x \<Rightarrow> True)"

text \<open>
  The heap a call leaves behind: the one it returns, or the one it had reached
  when it stopped.
\<close>

definition heap_after :: "Heap result \<Rightarrow> Heap" where
  "heap_after r = (case r of Inl (e, s) \<Rightarrow> s | Inr s \<Rightarrow> s)"

section \<open>Lemmas\<close>

subsection \<open>Index arithmetic\<close>

lemma parent_of_child:
  fixes d i k :: int
  assumes "1 \<le> k" "k \<le> d"
  shows "(d * i + k - 1) div d = i"
proof -
  from assms have "d \<noteq> 0" by simp
  have "d * i + k - 1 = k - 1 + i * d" by simp
  then have "(d * i + k - 1) div d = (k - 1 + i * d) div d" by (rule arg_cong)
  also have "\<dots> = i + (k - 1) div d"
    using \<open>d \<noteq> 0\<close> by (rule div_mult_self1)
  also have "(k - 1) div d = 0"
    using assms by (simp add: div_pos_pos_trivial)
  finally show ?thesis by simp
qed

lemma child_of_parent:
  fixes d c :: int
  assumes "1 \<le> d"
  shows "\<exists>k. 1 \<le> k \<and> k \<le> d \<and> c = d * ((c - 1) div d) + k"
proof -
  let ?k = "(c - 1) mod d + 1"
  have "0 \<le> (c - 1) mod d" "(c - 1) mod d < d"
    using assms by simp_all
  moreover have "c - 1 = d * ((c - 1) div d) + (c - 1) mod d"
    by simp
  ultimately have "1 \<le> ?k \<and> ?k \<le> d \<and> c = d * ((c - 1) div d) + ?k"
    by linarith
  then show ?thesis by blast
qed

lemma parent_below:
  fixes d c :: int
  assumes "1 \<le> d" "1 \<le> c"
  shows "0 \<le> (c - 1) div d \<and> (c - 1) div d < c"
proof -
  have "0 \<le> (c - 1) div d"
    using assms by (simp add: pos_imp_zdiv_nonneg_iff)
  moreover have "(c - 1) div d \<le> (c - 1) div 1"
    using assms by (intro zdiv_mono2) simp_all
  ultimately show ?thesis by simp
qed

lemma child_above:
  fixes d i k :: int
  assumes "1 \<le> k" "k \<le> d" "0 \<le> i"
  shows "i < d * i + k"
proof -
  from assms have "1 \<le> d" by simp
  with assms(3) have "i \<le> d * i" by (simp add: mult_le_cancel_right1)
  with assms(1) show ?thesis by simp
qed

subsection \<open>swap\<close>

lemma length_swap [simp]: "length (swap xs i j) = length xs"
  by (simp add: swap_def)

lemma nth_swap:
  assumes "0 \<le> i" "0 \<le> j" "0 \<le> k" "nat i < length xs" "nat j < length xs"
  shows "swap xs i j ! nat k =
           (if k = j then xs ! nat i else if k = i then xs ! nat j else xs ! nat k)"
  using assms by (auto simp: swap_def nth_list_update)

lemma mset_swap_array:
  assumes "nat i < length xs" "nat j < length xs"
  shows "mset (swap xs i j) = mset xs"
  using assms unfolding swap_def
  by (metis mset_swap list_update_swap list_update_id list_update_overwrite)

lemma take_swap:
  "take n (swap xs i j) = swap (take n xs) i j" if "nat i < n" "nat j < n"
  using that by (simp add: swap_def take_update_swap)

lemma mset_take_swap:
  assumes "nat i < n" "nat j < n" "n \<le> length xs"
  shows "mset (take n (swap xs i j)) = mset (take n xs)"
  using assms by (simp add: take_swap mset_swap_array)

subsection \<open>The max-heap property, read from child to parent\<close>

lemma max_heap_ordered:
  assumes "1 \<le> d_h heap"
  shows "max_heap heap = ordered (array heap) (size_h heap) (d_h heap)"
proof
  assume mh: "max_heap heap"
  show "ordered (array heap) (size_h heap) (d_h heap)"
    unfolding ordered_def
  proof (intro allI impI)
    fix c assume c: "1 \<le> c \<and> c < size_h heap"
    let ?p = "(c - 1) div d_h heap"
    from child_of_parent [OF assms, of c] obtain k
      where k: "1 \<le> k" "k \<le> d_h heap" "c = d_h heap * ?p + k" by blast
    from parent_below [OF assms, of c] c have p: "0 \<le> ?p" "?p < size_h heap" by auto
    from k c have lt: "d_h heap * ?p + k < size_h heap" by simp
    from p k have "?p \<in> {0..<size_h heap}" "k \<in> {1..d_h heap}" by simp_all
    with mh lt have "array heap ! nat (d_h heap * ?p + k) \<le> array heap ! nat ?p"
      unfolding max_heap_def by blast
    with k show "array heap ! nat c \<le> array heap ! nat ?p" by simp
  qed
next
  assume ord: "ordered (array heap) (size_h heap) (d_h heap)"
  show "max_heap heap"
    unfolding max_heap_def
  proof (intro ballI impI)
    fix i k
    assume i: "i \<in> {0..<size_h heap}" and k: "k \<in> {1..d_h heap}"
      and c: "d_h heap * i + k < size_h heap"
    let ?c = "d_h heap * i + k"
    from i k have "i < ?c" by (intro child_above) simp_all
    with i have "1 \<le> ?c" by simp
    with ord c have "array heap ! nat ?c \<le> array heap ! nat ((?c - 1) div d_h heap)"
      unfolding ordered_def by blast
    moreover from k have "(?c - 1) div d_h heap = i"
      by (intro parent_of_child) simp_all
    ultimately show "array heap ! nat ?c \<le> array heap ! nat i" by simp
  qed
qed

lemma ordered_root_max:
  assumes "ordered xs n d" "1 \<le> d" "0 \<le> c" "c < n"
  shows "xs ! nat c \<le> xs ! 0"
  using assms(3,4)
proof (induction "nat c" arbitrary: c rule: less_induct)
  case less
  show ?case
  proof (cases "c = 0")
    case True
    then show ?thesis by simp
  next
    case False
    with less.prems have c1: "1 \<le> c" by simp
    let ?p = "(c - 1) div d"
    from parent_below [OF assms(2) c1] have p: "0 \<le> ?p" "?p < c" by auto
    with less.prems have "xs ! nat ?p \<le> xs ! 0"
      by (intro less.hyps) simp_all
    moreover from assms(1) c1 less.prems have "xs ! nat c \<le> xs ! nat ?p"
      unfolding ordered_def by blast
    ultimately show ?thesis by simp
  qed
qed

lemma ordered_down_root:
  assumes "ordered xs n d" "1 \<le> d" "n' \<le> n"
  shows "ordered_down (xs[0 := v]) n' d 0"
  unfolding ordered_down_def
proof (intro allI impI)
  fix c assume c: "1 \<le> c \<and> c < n'"
  show "if (c - 1) div d = 0 then 1 \<le> (0::int) \<longrightarrow> xs[0 := v] ! nat c \<le> xs[0 := v] ! nat ((0 - 1) div d)
        else xs[0 := v] ! nat c \<le> xs[0 := v] ! nat ((c - 1) div d)"
  proof (cases "(c - 1) div d = 0")
    case True
    then show ?thesis by simp
  next
    case False
    from parent_below [OF assms(2), of c] c have "0 \<le> (c - 1) div d" by simp
    with False have "nat ((c - 1) div d) \<noteq> 0" by simp
    moreover from c have "nat c \<noteq> 0" by simp
    moreover from assms(1,3) c have "xs ! nat c \<le> xs ! nat ((c - 1) div d)"
      unfolding ordered_def by simp
    ultimately show ?thesis using False by simp
  qed
qed

subsection \<open>The scan of the children\<close>

text \<open>
  A scan that returned holds the index of a value no smaller than the one it
  started from and than every child it compared; when it moved, the value is
  strictly larger than what it started from and than every child before the
  one it returns.
\<close>

lemma dmaxHeapify_for_max:
  "dmaxHeapify_for heap i j largest = Inr l \<Longrightarrow>
     array heap ! nat largest \<le> array heap ! nat l \<and>
     (\<forall>k. j \<le> k \<and> k \<le> d_h heap \<and> d_h heap * i + k < size_h heap \<longrightarrow>
          array heap ! nat (d_h heap * i + k) \<le> array heap ! nat l) \<and>
     (l \<noteq> largest \<longrightarrow>
        array heap ! nat largest < array heap ! nat l \<and>
        (\<forall>k. j \<le> k \<and> d_h heap * i + k < l \<longrightarrow>
             array heap ! nat (d_h heap * i + k) < array heap ! nat l))"
proof (induction heap i j largest rule: dmaxHeapify_for.induct)
  case (1 heap i j largest)
  let ?a = "\<lambda>x. array heap ! nat x"
  show ?case
  proof (cases "j \<le> d_h heap")
    case False
    with "1.prems" show ?thesis by (simp add: dmaxHeapify_for_stop)
  next
    case jd: True
    note u = dmaxHeapify_for_unfold [OF "1.prems" jd]
    let ?c = "d_h heap * i + j"
    from u have c: "child i j (d_h heap) = Some ?c" and nj: "\<not> INT_MAX \<le> j" by auto
    show ?thesis
    proof (cases "?c < size_h heap")
      case False
      with u have rec: "dmaxHeapify_for heap i (j + 1) largest = Inr l" by simp
      note ih = "1.IH"(2) [OF jd c False nj rec]
      have *: "k = j \<or> j + 1 \<le> k" if "j \<le> k" for k :: int using that by linarith
      have r: "l \<noteq> largest \<Longrightarrow> l < size_h heap"
        using dmaxHeapify_for_range [OF "1.prems"] by blast
      show ?thesis
      proof (intro conjI allI impI)
        show "?a largest \<le> ?a l" using ih by simp
      next
        fix k assume "j \<le> k \<and> k \<le> d_h heap \<and> d_h heap * i + k < size_h heap"
        with False * [of k] ih show "?a (d_h heap * i + k) \<le> ?a l" by auto
      next
        assume "l \<noteq> largest" then show "?a largest < ?a l" using ih by simp
      next
        fix k assume "l \<noteq> largest" "j \<le> k \<and> d_h heap * i + k < l"
        with False r * [of k] ih show "?a (d_h heap * i + k) < ?a l" by auto
      qed
    next
      case True
      let ?l' = "if ?a ?c > ?a largest then ?c else largest"
      from u True have rec: "dmaxHeapify_for heap i (j + 1) ?l' = Inr l" by simp
      from u True have ok: "in_array ?c" "in_array largest" by simp_all
      note ih = "1.IH"(1) [OF jd c True _ nj rec]
      have l'1: "?a largest \<le> ?a ?l'" and l'2: "?a ?c \<le> ?a ?l'" by simp_all
      have mid: "?a ?l' \<le> ?a l" using ih ok by simp
      show ?thesis
      proof (intro conjI allI impI)
        show "?a largest \<le> ?a l" using l'1 mid by (rule order_trans)
      next
        fix k assume k: "j \<le> k \<and> k \<le> d_h heap \<and> d_h heap * i + k < size_h heap"
        from k consider "k = j" | "j + 1 \<le> k" by linarith
        then show "?a (d_h heap * i + k) \<le> ?a l"
        proof cases
          case 1 with l'2 mid show ?thesis by simp
        next
          case 2 with k ih ok show ?thesis by simp
        qed
      next
        assume ne: "l \<noteq> largest"
        show "?a largest < ?a l"
        proof (cases "?a ?c > ?a largest")
          case True with mid show ?thesis by simp
        next
          case False with ne ih ok show ?thesis by simp
        qed
      next
        fix k assume ne: "l \<noteq> largest" and k: "j \<le> k \<and> d_h heap * i + k < l"
        from k have "?c < l" by simp
        have strict: "?a ?l' < ?a l"
        proof (cases "?a ?c > ?a largest")
          case True
          with \<open>?c < l\<close> have "l \<noteq> ?l'" by simp
          with ih ok show ?thesis by simp
        next
          case False with ne ih ok show ?thesis by simp
        qed
        from k consider "k = j" | "j + 1 \<le> k" by linarith
        then show "?a (d_h heap * i + k) < ?a l"
        proof cases
          case 1 with l'2 strict show ?thesis by simp
        next
          case 2
          have "l \<noteq> ?l'" using strict by auto
          with k 2 ih ok show ?thesis by simp
        qed
      qed
    qed
  qed
qed

text \<open>
  The scan returns when the indices it computes are C \<^verbatim>\<open>int\<close>s: the children
  below the size are then inside the array.
\<close>

lemma dmaxHeapify_for_returns:
  assumes "0 \<le> i" "size_h heap \<le> MAX_CAPACITY" "d_h heap < INT_MAX"
    "d_h heap * i + d_h heap \<le> INT_MAX" "1 \<le> j" "in_array largest"
  shows "\<exists>l. dmaxHeapify_for heap i j largest = Inr l"
  using assms
proof (induction heap i j largest rule: dmaxHeapify_for.induct)
  case (1 heap i j largest)
  note i0 = \<open>0 \<le> i\<close> and cap = \<open>size_h heap \<le> MAX_CAPACITY\<close>
    and dm = \<open>d_h heap < INT_MAX\<close> and fit = \<open>d_h heap * i + d_h heap \<le> INT_MAX\<close>
    and j1 = \<open>1 \<le> j\<close> and inl = \<open>in_array largest\<close>
  show ?case
  proof (cases "j \<le> d_h heap")
    case False
    then show ?thesis by (simp add: dmaxHeapify_for_stop)
  next
    case jd: True
    let ?c = "d_h heap * i + j"
    from jd j1 have d1: "1 \<le> d_h heap" by simp
    with i0 have di: "0 \<le> d_h heap * i" by simp
    with fit jd j1 have c: "child i j (d_h heap) = Some ?c"
      by (simp add: child_def c_int_def INT_MIN_def)
    from jd dm have nj: "\<not> INT_MAX \<le> j" by simp
    show ?thesis
    proof (cases "?c < size_h heap")
      case True
      with di j1 cap have inc: "in_array ?c" by (simp add: in_array_def)
      let ?l' = "if array heap ! nat ?c > array heap ! nat largest then ?c else largest"
      from inc inl have "in_array ?l'" by simp
      with "1.IH"(1) [OF jd c True _ nj i0 cap dm fit] inc inl j1
      obtain l where "dmaxHeapify_for heap i (j + 1) ?l' = Inr l" by auto
      with jd c True inc inl nj show ?thesis
        by (subst dmaxHeapify_for.simps) simp
    next
      case False
      with "1.IH"(2) [OF jd c False nj i0 cap dm fit] j1 inl
      obtain l where "dmaxHeapify_for heap i (j + 1) largest = Inr l" by auto
      with jd c False nj show ?thesis
        by (subst dmaxHeapify_for.simps) simp
    qed
  qed
qed

subsection \<open>One swap downwards, one swap upwards\<close>

lemma ordered_down_swap:
  assumes od: "ordered_down xs n d i"
    and d: "1 \<le> d" and i: "0 \<le> i" and par: "(l - 1) div d = i" and il: "i < l"
    and ln: "l < n" and len: "nat l < length xs"
    and gt: "xs ! nat i < xs ! nat l"
    and mx: "\<forall>c. 1 \<le> c \<and> c < n \<and> (c - 1) div d = i \<longrightarrow> xs ! nat c \<le> xs ! nat l"
  shows "ordered_down (swap xs i l) n d l"
  unfolding ordered_down_def
proof (intro allI impI)
  fix c assume c: "1 \<le> c \<and> c < n"
  let ?p = "(c - 1) div d"
  let ?s = "swap xs i l"
  from parent_below [OF d, of c] c have p: "0 \<le> ?p" "?p < c" by auto
  from i il have l0: "0 \<le> l" "1 \<le> l" by simp_all
  from len il i have leni: "nat i < length xs" by simp
  note sw = nth_swap [OF i l0(1) _ leni len]
  from od c have odc: "if ?p = i then 1 \<le> i \<longrightarrow> xs ! nat c \<le> xs ! nat ((i - 1) div d)
                       else xs ! nat c \<le> xs ! nat ?p"
    unfolding ordered_down_def by blast
  from od l0 ln par have odl: "1 \<le> i \<longrightarrow> xs ! nat l \<le> xs ! nat ((i - 1) div d)"
    unfolding ordered_down_def by (metis (full_types))
  show "if ?p = l then 1 \<le> l \<longrightarrow> ?s ! nat c \<le> ?s ! nat ((l - 1) div d)
        else ?s ! nat c \<le> ?s ! nat ?p"
  proof (cases "?p = l")
    case True
    with p il have "c \<noteq> l" "c \<noteq> i" by simp_all
    with c i have "?s ! nat c = xs ! nat c" by (simp add: sw)
    moreover from il i have "?s ! nat i = xs ! nat l" by (simp add: sw)
    moreover from odc True il have "xs ! nat c \<le> xs ! nat l" by simp
    ultimately show ?thesis using True par by simp
  next
    case pl: False
    show ?thesis
    proof (cases "?p = i")
      case True
      with p have ci: "c \<noteq> i" by simp
      from True i il have sp: "?s ! nat ?p = xs ! nat l" by (simp add: sw)
      have "?s ! nat c \<le> xs ! nat l"
      proof (cases "c = l")
        case True
        with l0 gt show ?thesis by (simp add: sw)
      next
        case False
        with ci c have "?s ! nat c = xs ! nat c" by (simp add: sw)
        with mx c True show ?thesis by simp
      qed
      with sp pl show ?thesis by simp
    next
      case False
      with pl p have sp: "?s ! nat ?p = xs ! nat ?p" by (simp add: sw)
      from False par have cl: "c \<noteq> l" by auto
      have "?s ! nat c \<le> xs ! nat ?p"
      proof (cases "c = i")
        case True
        with c cl have "?s ! nat c = xs ! nat l" by (simp add: sw)
        with odl c True show ?thesis by simp
      next
        case ci: False
        with cl c have "?s ! nat c = xs ! nat c" by (simp add: sw)
        with odc False show ?thesis by simp
      qed
      with sp pl show ?thesis by simp
    qed
  qed
qed

lemma ordered_down_done:
  assumes od: "ordered_down xs n d i" and d: "1 \<le> d"
    and mx: "\<forall>c. 1 \<le> c \<and> c < n \<and> (c - 1) div d = i \<longrightarrow> xs ! nat c \<le> xs ! nat i"
  shows "ordered xs n d"
  unfolding ordered_def
proof (intro allI impI)
  fix c assume c: "1 \<le> c \<and> c < n"
  from od c have "if (c - 1) div d = i then 1 \<le> i \<longrightarrow> xs ! nat c \<le> xs ! nat ((i - 1) div d)
                  else xs ! nat c \<le> xs ! nat ((c - 1) div d)"
    unfolding ordered_down_def by blast
  with mx c show "xs ! nat c \<le> xs ! nat ((c - 1) div d)"
    by (cases "(c - 1) div d = i") auto
qed

lemma ordered_up_swap:
  assumes ou: "ordered_up xs n d i"
    and d: "1 \<le> d" and i: "1 \<le> i" and "i < n" and len: "nat i < length xs"
    and lt: "xs ! nat ((i - 1) div d) < xs ! nat i"
  shows "ordered_up (swap xs i ((i - 1) div d)) n d ((i - 1) div d)"
  unfolding ordered_up_def
proof (intro allI impI)
  fix c assume c: "1 \<le> c \<and> c < n"
  let ?q = "(i - 1) div d"
  let ?p = "(c - 1) div d"
  let ?s = "swap xs i ?q"
  from parent_below [OF d, of c] c have p: "0 \<le> ?p" "?p < c" by auto
  from parent_below [OF d i] have q: "0 \<le> ?q" "?q < i" by auto
  from i have i0: "0 \<le> i" by simp
  from len q have lenq: "nat ?q < length xs" by simp
  note sw = nth_swap [OF i0 q(1) _ len lenq]
  from ou c have ouc: "c \<noteq> i \<longrightarrow> xs ! nat c \<le> xs ! nat ?p"
    and oug: "?p = i \<longrightarrow> xs ! nat c \<le> xs ! nat ?q"
    using i unfolding ordered_up_def by blast+
  have sq: "?s ! nat ?q = xs ! nat i" using q by (simp add: sw)
  have si: "?s ! nat i = xs ! nat ?q" using q i0 by (simp add: sw)
  have other: "?s ! nat k = xs ! nat k" if "0 \<le> k" "k \<noteq> i" "k \<noteq> ?q" for k
    using that by (simp add: sw)
  show "(c \<noteq> ?q \<longrightarrow> ?s ! nat c \<le> ?s ! nat ?p) \<and>
        (?p = ?q \<and> 1 \<le> ?q \<longrightarrow> ?s ! nat c \<le> ?s ! nat ((?q - 1) div d))"
  proof (intro conjI impI)
    assume cq: "c \<noteq> ?q"
    show "?s ! nat c \<le> ?s ! nat ?p"
    proof (cases "c = i")
      case True
      with si sq lt show ?thesis by simp
    next
      case ci: False
      with cq c have sc: "?s ! nat c = xs ! nat c" by (simp add: other)
      show ?thesis
      proof (cases "?p = i")
        case True
        with si oug sc show ?thesis by simp
      next
        case pi: False
        show ?thesis
        proof (cases "?p = ?q")
          case True
          with sq ouc ci lt sc show ?thesis by simp
        next
          case False
          with pi p have "?s ! nat ?p = xs ! nat ?p" by (simp add: other)
          with ouc ci sc show ?thesis by simp
        qed
      qed
    qed
  next
    assume pq: "?p = ?q \<and> 1 \<le> ?q"
    let ?g = "(?q - 1) div d"
    from parent_below [OF d, of ?q] pq have g: "0 \<le> ?g" "?g < ?q" by auto
    with q have sg: "?s ! nat ?g = xs ! nat ?g" by (simp add: other)
    from ou pq q \<open>i < n\<close> have qg: "xs ! nat ?q \<le> xs ! nat ?g"
      unfolding ordered_up_def by (metis (full_types) less_le_not_le less_trans)
    show "?s ! nat c \<le> ?s ! nat ?g"
    proof (cases "c = i")
      case True
      with si sg qg show ?thesis by simp
    next
      case False
      from pq p have "c \<noteq> ?q" by auto
      with False c have "?s ! nat c = xs ! nat c" by (simp add: other)
      with ouc False pq qg sg show ?thesis by simp
    qed
  qed
qed

lemma ordered_up_done:
  assumes "ordered_up xs n d i" "i \<le> 0 \<or> xs ! nat i \<le> xs ! nat ((i - 1) div d)"
  shows "ordered xs n d"
  unfolding ordered_def
proof (intro allI impI)
  fix c assume c: "1 \<le> c \<and> c < n"
  from assms(1) c have "c \<noteq> i \<longrightarrow> xs ! nat c \<le> xs ! nat ((c - 1) div d)"
    unfolding ordered_up_def by blast
  with assms(2) c show "xs ! nat c \<le> xs ! nat ((c - 1) div d)"
    by (cases "c = i") auto
qed

subsection \<open>dmaxHeapify restores the order below a node\<close>

lemma dmaxHeapify_unfold:
  assumes "dmaxHeapify heap i = Inr h'"
  shows "\<exists>l. dmaxHeapify_for heap i 1 i = Inr l \<and>
           (l \<noteq> i \<longrightarrow> dmaxHeapify (heap\<lparr>array := swap (array heap) i l\<rparr>) l = Inr h') \<and>
           (l = i \<longrightarrow> h' = heap)"
proof (cases "dmaxHeapify_for heap i 1 i")
  case (Inl e)
  with assms show ?thesis by (subst (asm) dmaxHeapify.simps) simp
next
  case (Inr l)
  with assms show ?thesis by (subst (asm) dmaxHeapify.simps) (simp split: if_splits)
qed

lemma heap_wf_size: "heap_wf heap \<Longrightarrow> nat (size_h heap) \<le> length (array heap)"
  by (simp add: heap_wf_def nat_mono)

lemma heap_wf_in_array: "heap_wf heap \<Longrightarrow> in_array i \<Longrightarrow> nat i < length (array heap)"
  by (auto simp: heap_wf_def in_array_def)

lemma heap_wf_swap:
  assumes "heap_wf heap" "in_array i" "in_array l"
  shows "heap_wf (heap\<lparr>array := swap (array heap) i l\<rparr>)"
proof -
  from assms have len: "nat i < length (array heap)" "nat l < length (array heap)"
    by (simp_all add: heap_wf_def in_array_def)
  then have "set (swap (array heap) i l) = set (array heap)"
    by (metis mset_swap_array set_mset_mset)
  with assms(1) show ?thesis
    by (simp add: heap_wf_def list_all_iff)
qed

lemma dmaxHeapify_frame:
  "dmaxHeapify heap i = Inr h' \<Longrightarrow> heap_wf heap \<Longrightarrow>
     heap_wf h' \<and> size_h h' = size_h heap \<and> d_h h' = d_h heap \<and>
     mset (printHeap h') = mset (printHeap heap)"
proof (induction heap i rule: dmaxHeapify.induct)
  case (1 heap i)
  from dmaxHeapify_unfold [OF "1.prems"(1)]
  obtain l where scan: "dmaxHeapify_for heap i 1 i = Inr l"
    and rec: "l \<noteq> i \<Longrightarrow> dmaxHeapify (heap\<lparr>array := swap (array heap) i l\<rparr>) l = Inr h'"
    and stop: "l = i \<Longrightarrow> h' = heap"
    by blast
  show ?case
  proof (cases "l = i")
    case True
    with stop "1.prems" show ?thesis by simp
  next
    case False
    let ?h = "heap\<lparr>array := swap (array heap) i l\<rparr>"
    from dmaxHeapify_for_above [OF scan False]
    have b: "i < l" "in_array i" "in_array l" "l < size_h heap" by simp_all
    from "1.prems"(2) b have wf: "heap_wf ?h" by (intro heap_wf_swap)
    from "1.IH" [OF scan False rec [OF False] wf]
    have ih: "heap_wf h'" "size_h h' = size_h heap" "d_h h' = d_h heap"
      "mset (printHeap h') = mset (printHeap ?h)" by simp_all
    from b "1.prems"(2)
    have "mset (take (nat (size_h heap)) (swap (array heap) i l)) =
          mset (take (nat (size_h heap)) (array heap))"
      by (intro mset_take_swap heap_wf_size) (simp_all add: in_array_def)
    with ih show ?thesis by (simp add: printHeap_def)
  qed
qed

lemma dmaxHeapify_ordered:
  "dmaxHeapify heap i = Inr h' \<Longrightarrow> heap_wf heap \<Longrightarrow> 1 \<le> d_h heap \<Longrightarrow> 0 \<le> i \<Longrightarrow>
     ordered_down (array heap) (size_h heap) (d_h heap) i \<Longrightarrow>
     ordered (array h') (size_h heap) (d_h heap)"
proof (induction heap i rule: dmaxHeapify.induct)
  case (1 heap i)
  note wf = \<open>heap_wf heap\<close> and d = \<open>1 \<le> d_h heap\<close> and i0 = \<open>0 \<le> i\<close>
    and od = \<open>ordered_down (array heap) (size_h heap) (d_h heap) i\<close>
  from dmaxHeapify_unfold [OF "1.prems"(1)]
  obtain l where scan: "dmaxHeapify_for heap i 1 i = Inr l"
    and rec: "l \<noteq> i \<Longrightarrow> dmaxHeapify (heap\<lparr>array := swap (array heap) i l\<rparr>) l = Inr h'"
    and stop: "l = i \<Longrightarrow> h' = heap"
    by blast
  from dmaxHeapify_for_max [OF scan]
  have kids: "\<forall>k. 1 \<le> k \<and> k \<le> d_h heap \<and> d_h heap * i + k < size_h heap \<longrightarrow>
                array heap ! nat (d_h heap * i + k) \<le> array heap ! nat l"
    and gt: "l \<noteq> i \<Longrightarrow> array heap ! nat i < array heap ! nat l"
    by simp_all
  have mx: "\<forall>c. 1 \<le> c \<and> c < size_h heap \<and> (c - 1) div d_h heap = i \<longrightarrow>
               array heap ! nat c \<le> array heap ! nat l"
  proof (intro allI impI)
    fix c assume c: "1 \<le> c \<and> c < size_h heap \<and> (c - 1) div d_h heap = i"
    from child_of_parent [OF d, of c] c obtain k
      where "1 \<le> k" "k \<le> d_h heap" "c = d_h heap * i + k" by auto
    with kids c show "array heap ! nat c \<le> array heap ! nat l" by simp
  qed
  show ?case
  proof (cases "l = i")
    case True
    with stop od d mx show ?thesis by (auto intro: ordered_down_done)
  next
    case False
    let ?h = "heap\<lparr>array := swap (array heap) i l\<rparr>"
    from dmaxHeapify_for_above [OF scan False]
    have b: "i < l" "in_array i" "in_array l" "l < size_h heap" by simp_all
    from dmaxHeapify_for_range [OF scan] False obtain k
      where k: "1 \<le> k" "k \<le> d_h heap" "l = d_h heap * i + k" by blast
    then have par: "(l - 1) div d_h heap = i"
      using parent_of_child [of k "d_h heap" i] by simp
    from wf b have len: "nat l < length (array heap)"
      by (simp add: heap_wf_def in_array_def)
    from wf b have wf': "heap_wf ?h" by (intro heap_wf_swap)
    have "ordered_down (swap (array heap) i l) (size_h heap) (d_h heap) l"
      using od d i0 par b(1) b(4) len gt [OF False] mx by (rule ordered_down_swap)
    with "1.IH" [OF scan False rec [OF False] wf'] d i0 b show ?thesis by simp
  qed
qed

lemma dmaxHeapify_returns:
  "heap_wf heap \<Longrightarrow> 0 \<le> i \<Longrightarrow> in_array i \<Longrightarrow> d_h heap < INT_MAX \<Longrightarrow>
     d_h heap * i + d_h heap \<le> INT_MAX \<Longrightarrow> d_h heap * size_h heap \<le> INT_MAX \<Longrightarrow>
     \<exists>h'. dmaxHeapify heap i = Inr h'"
proof (induction heap i rule: dmaxHeapify.induct)
  case (1 heap i)
  note wf = \<open>heap_wf heap\<close>
  from wf have cap: "size_h heap \<le> MAX_CAPACITY" by (simp add: heap_wf_def)
  from dmaxHeapify_for_returns [OF \<open>0 \<le> i\<close> cap \<open>d_h heap < INT_MAX\<close>
      \<open>d_h heap * i + d_h heap \<le> INT_MAX\<close> _ \<open>in_array i\<close>, of 1]
  obtain l where scan: "dmaxHeapify_for heap i 1 i = Inr l" by auto
  show ?case
  proof (cases "l = i")
    case True
    with scan show ?thesis by (subst dmaxHeapify.simps) simp
  next
    case False
    let ?h = "heap\<lparr>array := swap (array heap) i l\<rparr>"
    from dmaxHeapify_for_above [OF scan False]
    have b: "i < l" "in_array i" "in_array l" "l < size_h heap" "1 \<le> d_h heap" by simp_all
    from wf b have wf': "heap_wf ?h" by (intro heap_wf_swap)
    from b have "l + 1 \<le> size_h heap" by simp
    with b have "d_h heap * (l + 1) \<le> d_h heap * size_h heap"
      by (intro mult_left_mono) simp_all
    with \<open>d_h heap * size_h heap \<le> INT_MAX\<close>
    have fit: "d_h heap * l + d_h heap \<le> INT_MAX" by (simp add: algebra_simps)
    from "1.IH" [OF scan False wf'] b \<open>0 \<le> i\<close> \<open>d_h heap < INT_MAX\<close> fit
      \<open>d_h heap * size_h heap \<le> INT_MAX\<close>
    obtain h' where "dmaxHeapify ?h l = Inr h'" by auto
    with scan False show ?thesis by (subst dmaxHeapify.simps) simp
  qed
qed

subsection \<open>The loop of insert and increaseKey restores the order above a node\<close>

lemma in_array_c_int: "in_array i \<Longrightarrow> c_int i"
  by (simp add: in_array_def c_int_def INT_MIN_def INT_MAX_def MAX_CAPACITY_def)

lemma parent_eq:
  assumes "1 \<le> d" "1 \<le> i" "c_int i"
  shows "parent i d = Some ((i - 1) div d)"
  using assms
  by (simp add: parent_def c_int_def c_div_pos INT_MIN_def INT_MAX_def)

lemma sift_up_correct:
  "heap_wf heap \<Longrightarrow> 1 \<le> d_h heap \<Longrightarrow> 0 \<le> i \<Longrightarrow> i < size_h heap \<Longrightarrow>
     \<exists>h'. sift_up heap i = Inr h' \<and> heap_wf h' \<and> size_h h' = size_h heap \<and>
          d_h h' = d_h heap \<and> mset (printHeap h') = mset (printHeap heap) \<and>
          (ordered_up (array heap) (size_h heap) (d_h heap) i \<longrightarrow>
             ordered (array h') (size_h heap) (d_h heap))"
proof (induction heap i rule: sift_up.induct)
  case (1 heap i)
  note wf = \<open>heap_wf heap\<close> and d = \<open>1 \<le> d_h heap\<close> and i0 = \<open>0 \<le> i\<close>
    and isz = \<open>i < size_h heap\<close>
  from wf isz i0 have ini: "in_array i" by (simp add: heap_wf_def in_array_def)
  show ?case
  proof (cases "i > ROOT")
    case False
    then have "sift_up heap i = Inr heap" by (subst sift_up.simps) simp
    moreover from False have "i \<le> 0" by (simp add: ROOT_def)
    ultimately show ?thesis using wf by (auto intro: ordered_up_done)
  next
    case True
    then have i1: "1 \<le> i" by (simp add: ROOT_def)
    let ?p = "(i - 1) div d_h heap"
    from parent_eq [OF d i1 in_array_c_int [OF ini]] have par: "parent i (d_h heap) = Some ?p" .
    from parent_below [OF d i1] have p: "0 \<le> ?p" "?p < i" by auto
    with ini have inp: "in_array ?p" by (simp add: in_array_def)
    show ?thesis
    proof (cases "array heap ! nat ?p < array heap ! nat i")
      case False
      with True par inp ini have "sift_up heap i = Inr heap"
        by (subst sift_up.simps) simp
      moreover from False have "i \<le> 0 \<or> array heap ! nat i \<le> array heap ! nat ?p" by simp
      ultimately show ?thesis using wf by (auto intro: ordered_up_done)
    next
      case lt: True
      let ?h = "heap\<lparr>array := swap (array heap) i ?p\<rparr>"
      from wf ini inp have wf': "heap_wf ?h" by (intro heap_wf_swap)
      from "1.IH" [OF True par _ lt wf'] inp ini d p isz
      obtain h' where h': "sift_up ?h ?p = Inr h'" "heap_wf h'" "size_h h' = size_h heap"
        "d_h h' = d_h heap" "mset (printHeap h') = mset (printHeap ?h)"
        "ordered_up (swap (array heap) i ?p) (size_h heap) (d_h heap) ?p \<longrightarrow>
           ordered (array h') (size_h heap) (d_h heap)"
        by auto
      from True par inp ini lt h'(1) have "sift_up heap i = Inr h'"
        by (subst sift_up.simps) simp
      moreover from p i0 isz wf
      have "mset (take (nat (size_h heap)) (swap (array heap) i ?p)) =
            mset (take (nat (size_h heap)) (array heap))"
        by (intro mset_take_swap heap_wf_size) simp_all
      with h'(5) have "mset (printHeap h') = mset (printHeap heap)"
        by (simp add: printHeap_def)
      moreover have "ordered (array h') (size_h heap) (d_h heap)"
        if ou: "ordered_up (array heap) (size_h heap) (d_h heap) i"
      proof -
        from wf ini have "nat i < length (array heap)" by (rule heap_wf_in_array)
        with ou d i1 isz lt
        have "ordered_up (swap (array heap) i ?p) (size_h heap) (d_h heap) ?p"
          by (intro ordered_up_swap)
        with h'(6) show ?thesis by simp
      qed
      ultimately show ?thesis using h' by auto
    qed
  qed
qed

subsection \<open>heapExtractMax\<close>

lemma mset_take_replace_root:
  assumes "Suc m \<le> length xs"
  shows "mset (take m (xs[0 := xs ! m])) = mset (take (Suc m) xs) - {#xs ! 0#}"
proof (cases m)
  case 0
  with assms have "take (Suc m) xs = [xs ! 0]"
    by (cases xs) simp_all
  with 0 show ?thesis by simp
next
  case (Suc k)
  from assms have m: "m < length xs" by simp
  have "take m (xs[0 := xs ! m]) = (take m xs)[0 := xs ! m]"
    by (simp add: take_update_swap)
  moreover from Suc m have "0 < length (take m xs)" by simp
  ultimately have "mset (take m (xs[0 := xs ! m])) =
      add_mset (xs ! m) (mset (take m xs) - {#take m xs ! 0#})"
    by (simp add: mset_update)
  moreover from Suc have "take m xs ! 0 = xs ! 0" by simp
  moreover from Suc m have "xs ! 0 \<in># mset (take m xs)"
    by (metis \<open>0 < length (take m xs)\<close> \<open>take m xs ! 0 = xs ! 0\<close> nth_mem_mset)
  moreover from m have "mset (take (Suc m) xs) = add_mset (xs ! m) (mset (take m xs))"
    by (simp add: take_Suc_conv_app_nth)
  ultimately show ?thesis by simp
qed

lemma max_heap_root:
  assumes "heap_wf heap" "1 \<le> d_h heap" "max_heap heap" "x \<in> set (printHeap heap)"
  shows "x \<le> array heap ! 0"
proof -
  from assms(4) obtain k where k: "k < length (printHeap heap)" "x = printHeap heap ! k"
    by (auto simp: in_set_conv_nth)
  then have kn: "k < nat (size_h heap)" and x: "x = array heap ! k"
    by (simp_all add: printHeap_def)
  from assms(2,3) have "ordered (array heap) (size_h heap) (d_h heap)"
    by (simp add: max_heap_ordered)
  from ordered_root_max [OF this assms(2), of "int k"] kn x show ?thesis by simp
qed

lemma heap_wf_update:
  assumes "heap_wf heap" "c_int v"
  shows "heap_wf (heap\<lparr>array := (array heap)[k := v]\<rparr>)"
proof -
  have "set ((array heap)[k := v]) \<subseteq> insert v (set (array heap))"
    by (rule set_update_subset_insert)
  with assms show ?thesis by (auto simp: heap_wf_def list_all_iff)
qed

lemma heap_wf_nth:
  assumes "heap_wf heap" "in_array i"
  shows "c_int (array heap ! nat i)"
proof -
  from assms have "nat i < length (array heap)" by (rule heap_wf_in_array)
  with assms(1) show ?thesis by (simp add: heap_wf_def list_all_length)
qed

lemma heapExtractMax_returns:
  assumes wf: "heap_wf heap" and d: "1 \<le> d_h heap" and n: "1 \<le> size_h heap"
    and fits: "child_fits heap (size_h heap)"
  shows "\<exists>h'. heapExtractMax heap = Inr (array heap ! 0, h') \<and>
           dmaxHeapify (heap\<lparr>array := (array heap)[0 := array heap ! nat (size_h heap - 1)],
                             size_h := size_h heap - 1\<rparr>) 0 = Inr h' \<and>
           heap_wf h' \<and> size_h h' = size_h heap - 1 \<and> d_h h' = d_h heap \<and>
           mset (printHeap h') = mset (printHeap heap) - {#array heap ! 0#} \<and>
           (max_heap heap \<longrightarrow> max_heap h')"
proof -
  let ?n = "size_h heap"
  let ?h2 = "heap\<lparr>array := (array heap)[0 := array heap ! nat (?n - 1)], size_h := ?n - 1\<rparr>"
  from wf n have inl: "in_array (?n - 1)" by (simp add: heap_wf_def in_array_def)
  from wf inl have "c_int (array heap ! nat (?n - 1))" by (rule heap_wf_nth)
  with wf have "heap_wf (heap\<lparr>array := (array heap)[0 := array heap ! nat (?n - 1)]\<rparr>)"
    by (rule heap_wf_update)
  with n have wf2: "heap_wf ?h2" by (simp add: heap_wf_def)
  from d have "d_h heap * (?n - 1) \<le> d_h heap * ?n"
    by (intro mult_left_mono) simp_all
  with fits have f2: "d_h ?h2 < INT_MAX" "d_h ?h2 * size_h ?h2 \<le> INT_MAX"
    by (simp_all add: child_fits_def)
  from fits d n have "d_h heap * 1 \<le> d_h heap * ?n"
    by (intro mult_left_mono) simp_all
  with fits have f0: "d_h ?h2 * 0 + d_h ?h2 \<le> INT_MAX" by (simp add: child_fits_def)
  have in0: "in_array 0" by (simp add: in_array_def MAX_CAPACITY_def)
  from dmaxHeapify_returns [OF wf2 _ in0 f2(1) f0 f2(2)]
  obtain h' where h': "dmaxHeapify ?h2 0 = Inr h'" by auto
  from dmaxHeapify_frame [OF h' wf2]
  have fr: "heap_wf h'" "size_h h' = ?n - 1" "d_h h' = d_h heap"
    "mset (printHeap h') = mset (printHeap ?h2)" by simp_all
  from n inl h' have res: "heapExtractMax heap = Inr (array heap ! 0, h')"
    by (simp add: heapExtractMax_def ROOT_def Let_def)
  from wf n have "Suc (nat (?n - 1)) \<le> length (array heap)"
    using heap_wf_size [OF wf] by simp
  from mset_take_replace_root [OF this] n
  have "mset (printHeap ?h2) = mset (printHeap heap) - {#array heap ! 0#}"
    by (simp add: printHeap_def nat_diff_distrib Suc_nat_eq_nat_zadd1)
  with fr have ms: "mset (printHeap h') = mset (printHeap heap) - {#array heap ! 0#}" by simp
  have "max_heap h'" if mh: "max_heap heap"
  proof -
    from mh d have "ordered (array heap) ?n (d_h heap)" by (simp add: max_heap_ordered)
    then have "ordered_down (array ?h2) (size_h ?h2) (d_h ?h2) 0"
      using d by (simp add: ordered_down_root)
    from dmaxHeapify_ordered [OF h' wf2 _ _ this] d
    have "ordered (array h') (?n - 1) (d_h heap)" by simp
    with fr d show ?thesis by (simp add: max_heap_ordered)
  qed
  with res h' fr ms show ?thesis by simp
qed

subsection \<open>insert, increaseKey and delete\<close>

lemma nth_update_int:
  assumes "0 \<le> i" "0 \<le> c"
  shows "xs[nat i := v] ! nat c = (if c = i \<and> nat i < length xs then v else xs ! nat c)"
proof (cases "c = i")
  case True
  then show ?thesis by (cases "nat i < length xs") (simp_all add: list_update_beyond)
next
  case False
  with assms have "nat i \<noteq> nat c" by simp
  with False show ?thesis by simp
qed

lemma ordered_up_append:
  assumes "ordered xs n d" "1 \<le> d" "0 \<le> n"
  shows "ordered_up (xs[nat n := key]) (n + 1) d n"
  unfolding ordered_up_def
proof (intro allI impI conjI)
  fix c assume c: "1 \<le> c \<and> c < n + 1" and "c \<noteq> n"
  then have cn: "c < n" by simp
  from parent_below [OF assms(2), of c] c have "0 \<le> (c - 1) div d" "(c - 1) div d < c" by auto
  with cn c assms(1,3) show "xs[nat n := key] ! nat c \<le> xs[nat n := key] ! nat ((c - 1) div d)"
    unfolding ordered_def by (simp add: nth_update_int)
next
  fix c assume c: "1 \<le> c \<and> c < n + 1" and "(c - 1) div d = n \<and> 1 \<le> n"
  with parent_below [OF assms(2), of c] have False by auto
  then show "xs[nat n := key] ! nat c \<le> xs[nat n := key] ! nat ((n - 1) div d)" ..
qed

lemma ordered_up_increase:
  assumes ord: "ordered xs n d" and d: "1 \<le> d" and i: "0 \<le> i" "i < n"
    and key: "xs ! nat i \<le> key" and len: "nat i < length xs"
  shows "ordered_up (xs[nat i := key]) n d i"
  unfolding ordered_up_def
proof (intro allI impI conjI)
  fix c assume c: "1 \<le> c \<and> c < n" and ci: "c \<noteq> i"
  let ?p = "(c - 1) div d"
  from parent_below [OF d, of c] c have p: "0 \<le> ?p" "?p < c" by auto
  from ord c have le: "xs ! nat c \<le> xs ! nat ?p" unfolding ordered_def by blast
  from ci c i have "xs[nat i := key] ! nat c = xs ! nat c" by (simp add: nth_update_int)
  moreover have "xs ! nat ?p \<le> xs[nat i := key] ! nat ?p"
    using key len p i by (simp add: nth_update_int)
  ultimately show "xs[nat i := key] ! nat c \<le> xs[nat i := key] ! nat ?p"
    using le by simp
next
  fix c assume c: "1 \<le> c \<and> c < n" and pc: "(c - 1) div d = i \<and> 1 \<le> i"
  let ?g = "(i - 1) div d"
  from parent_below [OF d, of c] c pc have ic: "i < c" by auto
  from parent_below [OF d, of i] pc have g: "0 \<le> ?g" "?g < i" by auto
  from ord c pc have "xs ! nat c \<le> xs ! nat i" unfolding ordered_def by auto
  also from ord pc i have "xs ! nat i \<le> xs ! nat ?g" unfolding ordered_def by auto
  finally have "xs ! nat c \<le> xs ! nat ?g" .
  with ic g i c show "xs[nat i := key] ! nat c \<le> xs[nat i := key] ! nat ?g"
    by (simp add: nth_update_int)
qed

lemma insert_h_correct:
  assumes wf: "heap_wf heap" and d: "1 \<le> d_h heap" and room: "size_h heap < MAX_CAPACITY"
    and key: "c_int key"
  shows "\<exists>h'. insert_h heap key = Inr h' \<and> heap_wf h' \<and> size_h h' = size_h heap + 1 \<and>
           d_h h' = d_h heap \<and> mset (printHeap h') = add_mset key (mset (printHeap heap)) \<and>
           (max_heap heap \<longrightarrow> max_heap h')"
proof -
  let ?n = "size_h heap"
  let ?h2 = "heap\<lparr>array := (array heap)[nat ?n := key], size_h := ?n + 1\<rparr>"
  from wf have n0: "0 \<le> ?n" by (simp add: heap_wf_def)
  with room have inn: "in_array ?n" by (simp add: in_array_def)
  from wf key have "heap_wf (heap\<lparr>array := (array heap)[nat ?n := key]\<rparr>)"
    by (rule heap_wf_update)
  with room n0 have wf2: "heap_wf ?h2" by (simp add: heap_wf_def)
  from sift_up_correct [OF wf2, of ?n] d n0
  obtain h' where h': "sift_up ?h2 ?n = Inr h'" "heap_wf h'" "size_h h' = ?n + 1"
    "d_h h' = d_h heap" "mset (printHeap h') = mset (printHeap ?h2)"
    "ordered_up (array ?h2) (?n + 1) (d_h heap) ?n \<longrightarrow> ordered (array h') (?n + 1) (d_h heap)"
    by auto
  from room inn h'(1) have res: "insert_h heap key = Inr h'"
    by (simp add: insert_h_def Let_def)
  from wf inn have "nat ?n < length (array heap)" by (rule heap_wf_in_array)
  with n0 have "mset (printHeap ?h2) = add_mset key (mset (printHeap heap))"
    by (simp add: printHeap_def nat_add_distrib take_Suc_conv_app_nth)
  with h'(5) have ms: "mset (printHeap h') = add_mset key (mset (printHeap heap))" by simp
  have "max_heap h'" if "max_heap heap"
  proof -
    from that d have "ordered (array heap) ?n (d_h heap)" by (simp add: max_heap_ordered)
    from ordered_up_append [OF this d n0] h'(6)
    have "ordered (array h') (?n + 1) (d_h heap)" by simp
    with h' d show ?thesis by (simp add: max_heap_ordered)
  qed
  with res h' ms show ?thesis by simp
qed

lemma increaseKey_correct:
  assumes wf: "heap_wf heap" and d: "1 \<le> d_h heap" and i: "0 \<le> i" "i < size_h heap"
    and key: "c_int key" and ge: "array heap ! nat i \<le> key"
  shows "\<exists>h'. increaseKey heap i key = Inr h' \<and> heap_wf h' \<and> size_h h' = size_h heap \<and>
           d_h h' = d_h heap \<and>
           mset (printHeap h') = add_mset key (mset (printHeap heap) - {#array heap ! nat i#}) \<and>
           (max_heap heap \<longrightarrow> max_heap h')"
proof -
  let ?n = "size_h heap"
  let ?h1 = "heap\<lparr>array := (array heap)[nat i := key]\<rparr>"
  from wf i have ini: "in_array i" by (simp add: heap_wf_def in_array_def)
  from wf key have wf1: "heap_wf ?h1" by (rule heap_wf_update)
  from sift_up_correct [OF wf1, of i] d i
  obtain h' where h': "sift_up ?h1 i = Inr h'" "heap_wf h'" "size_h h' = ?n"
    "d_h h' = d_h heap" "mset (printHeap h') = mset (printHeap ?h1)"
    "ordered_up (array ?h1) ?n (d_h heap) i \<longrightarrow> ordered (array h') ?n (d_h heap)"
    by auto
  from ini ge h'(1) have res: "increaseKey heap i key = Inr h'"
    by (simp add: increaseKey_def)
  from i have "nat i < length (take (nat ?n) (array heap))"
    using heap_wf_size [OF wf] by simp
  then have "mset ((take (nat ?n) (array heap))[nat i := key]) =
      add_mset key (mset (take (nat ?n) (array heap)) - {#take (nat ?n) (array heap) ! nat i#})"
    by (rule mset_update)
  with i have "mset (printHeap ?h1) =
      add_mset key (mset (printHeap heap) - {#array heap ! nat i#})"
    by (simp add: printHeap_def take_update_swap)
  with h'(5) have ms: "mset (printHeap h') =
      add_mset key (mset (printHeap heap) - {#array heap ! nat i#})" by simp
  have "max_heap h'" if "max_heap heap"
  proof -
    from that d have "ordered (array heap) ?n (d_h heap)" by (simp add: max_heap_ordered)
    moreover from wf ini have "nat i < length (array heap)" by (rule heap_wf_in_array)
    ultimately have "ordered_up (array ?h1) ?n (d_h heap) i"
      using d i ge by (simp add: ordered_up_increase)
    with h'(6) have "ordered (array h') ?n (d_h heap)" by simp
    with h' d show ?thesis by (simp add: max_heap_ordered)
  qed
  with res h' ms show ?thesis by simp
qed

lemma increaseKey_same:
  assumes wf: "heap_wf heap" and d: "1 \<le> d_h heap" and i: "0 \<le> i" "i < size_h heap"
    and mh: "max_heap heap"
  shows "increaseKey heap i (array heap ! nat i) = Inr heap"
proof -
  from wf i have ini: "in_array i" by (simp add: heap_wf_def in_array_def)
  have same: "heap\<lparr>array := (array heap)[nat i := array heap ! nat i]\<rparr> = heap" by simp
  have "sift_up heap i = Inr heap"
  proof (cases "i > ROOT")
    case False
    then show ?thesis by (subst sift_up.simps) simp
  next
    case True
    then have i1: "1 \<le> i" by (simp add: ROOT_def)
    let ?p = "(i - 1) div d_h heap"
    from parent_below [OF d i1] ini have inp: "in_array ?p" by (simp add: in_array_def)
    from mh d have "ordered (array heap) (size_h heap) (d_h heap)" by (simp add: max_heap_ordered)
    with i1 i have "\<not> array heap ! nat ?p < array heap ! nat i"
      unfolding ordered_def by (simp add: not_less)
    with True parent_eq [OF d i1 in_array_c_int [OF ini]] inp ini show ?thesis
      by (subst sift_up.simps) simp
  qed
  with ini same show ?thesis by (simp add: increaseKey_def)
qed

lemma c_int_INT_MAX: "c_int INT_MAX"
  by (simp add: c_int_def INT_MAX_def INT_MIN_def)

lemma delete_correct:
  assumes wf: "heap_wf heap" and d: "1 \<le> d_h heap" and i: "0 \<le> index" "index < size_h heap"
    and fits: "child_fits heap (size_h heap)" and mh: "max_heap heap"
  shows "\<exists>h'. delete heap index = Inr h' \<and> heap_wf h' \<and> size_h h' = size_h heap - 1 \<and>
           d_h h' = d_h heap \<and> max_heap h' \<and>
           mset (printHeap h') = mset (printHeap heap) - {#array heap ! nat index#}"
proof -
  let ?v = "array heap ! nat index"
  from wf i have ini: "in_array index" by (simp add: heap_wf_def in_array_def)
  from heap_wf_nth [OF wf ini] have "?v \<le> INT_MAX" by (simp add: c_int_def)
  from increaseKey_correct [OF wf d i c_int_INT_MAX this] mh
  obtain h1 where h1: "increaseKey heap index INT_MAX = Inr h1" "heap_wf h1"
    "size_h h1 = size_h heap" "d_h h1 = d_h heap" "max_heap h1"
    "mset (printHeap h1) = add_mset INT_MAX (mset (printHeap heap) - {#?v#})"
    by auto
  from i h1 have n1: "1 \<le> size_h h1" by simp
  from fits h1 have f1: "child_fits h1 (size_h h1)" by (simp add: child_fits_def)
  from d h1 have d1: "1 \<le> d_h h1" by simp
  from heapExtractMax_returns [OF h1(2) d1 n1 f1] h1
  obtain h2 where h2: "heapExtractMax h1 = Inr (array h1 ! 0, h2)" "heap_wf h2"
    "size_h h2 = size_h heap - 1" "d_h h2 = d_h heap" "max_heap h2"
    "mset (printHeap h2) = mset (printHeap h1) - {#array h1 ! 0#}"
    by auto
  have "INT_MAX \<in> set (printHeap h1)"
    using h1(6) by (metis union_single_eq_member set_mset_mset add_mset_add_single)
  from max_heap_root [OF h1(2) d1 h1(5) this] have "INT_MAX \<le> array h1 ! 0" .
  moreover have "in_array 0" by (simp add: in_array_def MAX_CAPACITY_def)
  from heap_wf_nth [OF h1(2) this] have "array h1 ! 0 \<le> INT_MAX" by (simp add: c_int_def)
  ultimately have root: "array h1 ! 0 = INT_MAX" by simp
  with h2(6) h1(6) have "mset (printHeap h2) = mset (printHeap heap) - {#?v#}" by simp
  moreover from i h1(1) h2(1) have "delete heap index = Inr h2"
    by (simp add: delete_def)
  ultimately show ?thesis using h2 by simp
qed

subsection \<open>The loops stop only by returning or by leaving defined behaviour\<close>

lemma dmaxHeapify_for_error:
  "dmaxHeapify_for heap i j largest = Inl (e, s) \<Longrightarrow> e = Undefined \<and> s = heap"
proof (induction heap i j largest rule: dmaxHeapify_for.induct)
  case (1 heap i j largest)
  from "1.prems" show ?case
    by (subst (asm) dmaxHeapify_for.simps)
       (auto split: if_splits option.splits dest: "1.IH")
qed

lemma dmaxHeapify_error:
  "dmaxHeapify heap i = Inl (e, s) \<Longrightarrow> e = Undefined"
proof (induction heap i rule: dmaxHeapify.induct)
  case (1 heap i)
  from "1.prems" show ?case
    by (subst (asm) dmaxHeapify.simps)
       (auto split: sum.splits if_splits dest: "1.IH" dmaxHeapify_for_error)
qed

lemma sift_up_error:
  "sift_up heap i = Inl (e, s) \<Longrightarrow> e = Undefined"
proof (induction heap i rule: sift_up.induct)
  case (1 heap i)
  from "1.prems" show ?case
    by (subst (asm) sift_up.simps)
       (auto split: if_splits option.splits dest: "1.IH")
qed

lemma heapExtractMax_Underflow:
  "(\<exists>s. heapExtractMax heap = Inl (Underflow, s)) = (size_h heap < 1)"
  by (auto simp: heapExtractMax_def Let_def split: sum.splits dest: dmaxHeapify_error)

lemma increaseKey_InvalidKey:
  "in_array i \<Longrightarrow>
     (\<exists>s. increaseKey heap i key = Inl (InvalidKey, s)) = (key < array heap ! nat i)"
  by (auto simp: increaseKey_def dest: sift_up_error)

subsection \<open>A degree of INT_MAX\<close>

text \<open>
  With \<^verbatim>\<open>d == INT_MAX\<close> the test \<^verbatim>\<open>j <= heap->d\<close> of the scan holds for every
  \<^verbatim>\<open>int\<close>: the scan of the root of a heap of at most one element compares no
  child and steps its counter until \<^verbatim>\<open>++j\<close> overflows.
\<close>

lemma dmaxHeapify_for_INT_MAX:
  "d_h heap = INT_MAX \<Longrightarrow> size_h heap \<le> 1 \<Longrightarrow> 1 \<le> j \<Longrightarrow> j \<le> INT_MAX \<Longrightarrow>
     dmaxHeapify_for heap 0 j largest = Inl (Undefined, heap)"
proof (induction heap "0::int" j largest rule: dmaxHeapify_for.induct)
  case (1 heap j largest)
  from "1.prems" have c: "child 0 j (d_h heap) = Some j"
    by (simp add: child_def c_int_def INT_MIN_def INT_MAX_def)
  from "1.prems" have ns: "\<not> j < size_h heap" by simp
  show ?case
  proof (cases "INT_MAX \<le> j")
    case True
    with "1.prems" c ns show ?thesis by (subst dmaxHeapify_for.simps) simp
  next
    case False
    with "1.prems" have jd: "j \<le> d_h heap" by simp
    from "1.hyps"(2) [OF jd c _ False] ns "1.prems" False
    have "dmaxHeapify_for heap 0 (j + 1) largest = Inl (Undefined, heap)" by simp
    with "1.prems" c ns False show ?thesis by (subst dmaxHeapify_for.simps) simp
  qed
qed

lemma dmaxHeapify_INT_MAX:
  assumes "d_h heap = INT_MAX" "size_h heap \<le> 1"
  shows "dmaxHeapify heap 0 = Inl (Undefined, heap)"
proof -
  have "(1::int) \<le> INT_MAX" by (simp add: INT_MAX_def)
  from dmaxHeapify_for_INT_MAX [OF assms _ this, of 0]
  show ?thesis by (subst dmaxHeapify.simps) simp
qed

lemma heapExtractMax_INT_MAX:
  assumes "d_h heap = INT_MAX" "size_h heap = 1"
  shows "heapExtractMax heap =
           Inl (Undefined, heap\<lparr>array := (array heap)[0 := array heap ! 0], size_h := 0\<rparr>)"
proof -
  let ?h2 = "heap\<lparr>array := (array heap)[0 := array heap ! 0], size_h := 0\<rparr>"
  from assms have "dmaxHeapify ?h2 0 = Inl (Undefined, ?h2)"
    by (intro dmaxHeapify_INT_MAX) simp_all
  with assms show ?thesis
    by (simp add: heapExtractMax_def Let_def ROOT_def in_array_def MAX_CAPACITY_def)
qed

text \<open>
  With that degree the scan never returns, whatever the node and the children:
  every path through the loop ends in the overflow of \<^verbatim>\<open>++j\<close>, of the child index,
  or in a read outside the array.
\<close>

lemma dmaxHeapify_for_never_returns:
  "d_h heap = INT_MAX \<Longrightarrow> j \<le> INT_MAX \<Longrightarrow>
     dmaxHeapify_for heap i j largest = Inl (Undefined, heap)"
proof (induction heap i j largest rule: dmaxHeapify_for.induct)
  case (1 heap i j largest)
  show ?case
  proof (cases "INT_MAX \<le> j")
    case True
    with "1.prems" show ?thesis
      by (subst dmaxHeapify_for.simps) (simp split: option.splits)
  next
    case False
    with "1.prems" have jd: "j \<le> d_h heap" and j1: "j + 1 \<le> INT_MAX" by simp_all
    show ?thesis
    proof (cases "child i j (d_h heap)")
      case None
      with jd show ?thesis by (subst dmaxHeapify_for.simps) simp
    next
      case (Some c)
      note ih1 = "1.IH"(1) [OF jd Some _ _ False "1.prems"(1) j1]
      note ih2 = "1.IH"(2) [OF jd Some _ False "1.prems"(1) j1]
      from jd Some False ih1 ih2 show ?thesis
        by (subst dmaxHeapify_for.simps) simp
    qed
  qed
qed

subsection \<open>dmaxHeapify leaves the array below its index alone\<close>

lemma heap_after_Inr [simp]: "heap_after (Inr s) = s"
  by (simp add: heap_after_def)

lemma heap_after_Inl [simp]: "heap_after (Inl (e, s)) = s"
  by (simp add: heap_after_def)

lemma dmaxHeapify_below:
  "m < nat i \<Longrightarrow> array (heap_after (dmaxHeapify heap i)) ! m = array heap ! m"
proof (induction heap i rule: dmaxHeapify.induct)
  case (1 heap i)
  show ?case
  proof (cases "dmaxHeapify_for heap i 1 i")
    case (Inl e)
    obtain er s where e: "e = (er, s)" by (cases e)
    with Inl dmaxHeapify_for_error [of heap i 1 i er s] have "s = heap" by simp
    with Inl e show ?thesis by (subst dmaxHeapify.simps) simp
  next
    case (Inr l)
    show ?thesis
    proof (cases "l = i")
      case True
      with Inr show ?thesis by (subst dmaxHeapify.simps) simp
    next
      case False
      from dmaxHeapify_for_above [OF Inr False]
      have b: "i < l" "in_array i" "in_array l" by simp_all
      with "1.prems" have ml: "m < nat l" "m \<noteq> nat i" "m \<noteq> nat l" by simp_all
      from "1.IH" [OF Inr False ml(1)] ml
      have "array (heap_after (dmaxHeapify (heap\<lparr>array := swap (array heap) i l\<rparr>) l)) ! m =
            array heap ! m"
        by (simp add: swap_def)
      with Inr False show ?thesis by (subst dmaxHeapify.simps) simp
    qed
  qed
qed

subsection \<open>Concrete heaps\<close>

lemma heap_wf_heap_of:
  assumes "int (length xs) \<le> MAX_CAPACITY" "list_all c_int xs" "c_int d"
  shows "heap_wf (heap_of xs d)"
proof -
  have "c_int 0" by (simp add: c_int_def INT_MIN_def INT_MAX_def)
  then have "list_all c_int (replicate (nat MAX_CAPACITY - length xs) 0)"
    by (simp add: list_all_iff)
  moreover from assms(1) have "length xs \<le> nat MAX_CAPACITY" by simp
  ultimately show ?thesis using assms
    by (simp add: heap_wf_def heap_of_def)
qed

lemma printHeap_heap_of [simp]: "printHeap (heap_of xs d) = xs"
  by (simp add: printHeap_def heap_of_def)

lemma size_h_heap_of [simp]: "size_h (heap_of xs d) = int (length xs)"
  by (simp add: heap_of_def)

lemma d_h_heap_of [simp]: "d_h (heap_of xs d) = d"
  by (simp add: heap_of_def)

lemma nth_heap_of:
  assumes "0 \<le> c" "c < int (length xs)"
  shows "array (heap_of xs d) ! nat c = xs ! nat c"
proof -
  from assms have "nat c < length xs" by simp
  then show ?thesis by (simp add: heap_of_def nth_append)
qed

lemma max_heap_heap_of:
  "max_heap (heap_of xs d) =
     (\<forall>i\<in>{0..<int (length xs)}. \<forall>k\<in>{1..d}.
        d * i + k < int (length xs) \<longrightarrow> xs ! nat (d * i + k) \<le> xs ! nat i)"
proof -
  let ?a = "array (heap_of xs d)"
  let ?n = "int (length xs)"
  have eq: "(?a ! nat (d * i + k) \<le> ?a ! nat i) = (xs ! nat (d * i + k) \<le> xs ! nat i)"
    if "i \<in> {0..<?n}" "k \<in> {1..d}" "d * i + k < ?n" for i k
  proof -
    from that have "i < d * i + k" by (intro child_above) simp_all
    with that show ?thesis by (simp add: nth_heap_of)
  qed
  have "max_heap (heap_of xs d) =
      (\<forall>i\<in>{0..<?n}. \<forall>k\<in>{1..d}. d * i + k < ?n \<longrightarrow> ?a ! nat (d * i + k) \<le> ?a ! nat i)"
    by (simp add: max_heap_def)
  also have "\<dots> = (\<forall>i\<in>{0..<?n}. \<forall>k\<in>{1..d}. d * i + k < ?n \<longrightarrow>
      xs ! nat (d * i + k) \<le> xs ! nat i)"
    using eq by blast
  finally show ?thesis .
qed

text \<open>
  The heap that \<^verbatim>\<open>buildMaxHeap\<close> makes of the line \<^verbatim>\<open>3 1 4 1 5 9 2 6\<close> with
  degree 2.
\<close>

lemma example_wf: "heap_wf (heap_of [9, 6, 4, 1, 5, 3, 2, 1] 2)"
  by (rule heap_wf_heap_of) (simp_all add: MAX_CAPACITY_def c_int_def INT_MIN_def INT_MAX_def)

lemma example_max_heap: "max_heap (heap_of [9, 6, 4, 1, 5, 3, 2, 1] 2)"
  unfolding max_heap_heap_of
proof (intro ballI impI)
  fix i k :: int
  assume a: "i \<in> {0..<int (length [9::int, 6, 4, 1, 5, 3, 2, 1])}" "k \<in> {1..2}"
    and lt: "2 * i + k < int (length [9::int, 6, 4, 1, 5, 3, 2, 1])"
  from a lt have "i \<in> {0, 1, 2, 3}" "k \<in> {1, 2}" by auto
  with lt show "[9::int, 6, 4, 1, 5, 3, 2, 1] ! nat (2 * i + k) \<le> [9, 6, 4, 1, 5, 3, 2, 1] ! nat i"
    by auto
qed

lemma example_fits: "child_fits (heap_of [9, 6, 4, 1, 5, 3, 2, 1] 2) 8"
  by (simp add: child_fits_def INT_MAX_def)

text \<open>A heap of the one key 5 with the largest degree \<^verbatim>\<open>main\<close> accepts.\<close>

lemma overflow_wf: "heap_wf (heap_of [5] INT_MAX)"
  by (rule heap_wf_heap_of) (simp_all add: MAX_CAPACITY_def c_int_def INT_MIN_def INT_MAX_def)

lemma overflow_max_heap: "max_heap (heap_of [5] INT_MAX)"
  unfolding max_heap_heap_of by auto

text \<open>The root 1 over the children 3, 7 and 7, with degree 3.\<close>

lemma tie_scan: "dmaxHeapify_for (heap_of [1, 3, 7, 7] 3) 0 1 0 = Inr 2"
  by (simp add: dmaxHeapify_for.simps heap_of_def child_def c_int_def in_array_def INT_MIN_def
      INT_MAX_def MAX_CAPACITY_def)

lemma tie_heapify: "dmaxHeapify (heap_of [1, 3, 7, 7] 3) 0 = Inr (heap_of [7, 3, 1, 7] 3)"
proof -
  let ?h = "heap_of [1, 3, 7, 7] 3"
  have sw: "?h\<lparr>array := swap (array ?h) 0 2\<rparr> = heap_of [7, 3, 1, 7] 3"
    by (simp add: heap_of_def swap_def)
  have "dmaxHeapify_for (heap_of [7, 3, 1, 7] 3) 2 1 2 = Inr 2"
    by (simp add: dmaxHeapify_for.simps heap_of_def child_def c_int_def in_array_def INT_MIN_def
        INT_MAX_def MAX_CAPACITY_def)
  then have "dmaxHeapify (heap_of [7, 3, 1, 7] 3) 2 = Inr (heap_of [7, 3, 1, 7] 3)"
    by (subst dmaxHeapify.simps) simp
  with tie_scan sw show ?thesis by (subst dmaxHeapify.simps) simp
qed

subsection \<open>delete and buildMaxHeap return\<close>

lemma delete_returns:
  assumes wf: "heap_wf heap" and d: "1 \<le> d_h heap" and i: "0 \<le> index" "index < size_h heap"
    and fits: "child_fits heap (size_h heap)"
  shows "\<exists>h'. delete heap index = Inr h' \<and> heap_wf h' \<and> size_h h' = size_h heap - 1 \<and>
           d_h h' = d_h heap"
proof -
  from wf i have ini: "in_array index" by (simp add: heap_wf_def in_array_def)
  from heap_wf_nth [OF wf ini] have "array heap ! nat index \<le> INT_MAX" by (simp add: c_int_def)
  from increaseKey_correct [OF wf d i c_int_INT_MAX this]
  obtain h1 where h1: "increaseKey heap index INT_MAX = Inr h1" "heap_wf h1"
    "size_h h1 = size_h heap" "d_h h1 = d_h heap" by auto
  from i h1 have n1: "1 \<le> size_h h1" by simp
  from fits h1 have f1: "child_fits h1 (size_h h1)" by (simp add: child_fits_def)
  from d h1 have d1: "1 \<le> d_h h1" by simp
  from heapExtractMax_returns [OF h1(2) d1 n1 f1] h1
  obtain h2 where h2: "heapExtractMax h1 = Inr (array h1 ! 0, h2)" "heap_wf h2"
    "size_h h2 = size_h heap - 1" "d_h h2 = d_h heap" by auto
  from i h1(1) h2(1) have "delete heap index = Inr h2" by (simp add: delete_def)
  with h2 show ?thesis by simp
qed

lemma delete_INT_MAX:
  "delete (heap_of [5] INT_MAX) 0 = Inl (Undefined, heap_of [INT_MAX] INT_MAX\<lparr>size_h := 0\<rparr>)"
proof -
  let ?h = "heap_of [5] INT_MAX"
  let ?h1 = "heap_of [INT_MAX] INT_MAX"
  have "sift_up ?h1 0 = Inr ?h1" by (subst sift_up.simps) (simp add: ROOT_def)
  moreover have "?h\<lparr>array := (array ?h)[nat 0 := INT_MAX]\<rparr> = ?h1" by (simp add: heap_of_def)
  ultimately have "increaseKey ?h 0 INT_MAX = Inr ?h1"
    by (simp add: increaseKey_def in_array_def MAX_CAPACITY_def heap_of_def INT_MAX_def)
  moreover have "heapExtractMax ?h1 = Inl (Undefined, ?h1\<lparr>size_h := 0\<rparr>)"
    by (subst heapExtractMax_INT_MAX) simp_all
  ultimately show ?thesis by (simp add: delete_def)
qed




subsection \<open>Runs that come to an end\<close>

lemma terminates_Inr [simp]: "terminates (Inr x)"
  by (simp add: terminates_def)

lemma terminates_Inl [simp]: "terminates (Inl (e, s)) = (e \<noteq> Undefined)"
  by (simp add: terminates_def)

subsection \<open>Extracting and inserting in sequence\<close>

lemma child_fits_smaller:
  assumes "child_fits heap n" "1 \<le> d_h heap" "m \<le> n" "d_h heap' = d_h heap"
  shows "child_fits heap' m"
proof -
  from assms(2,3) have "d_h heap * m \<le> d_h heap * n" by (intro mult_left_mono) simp_all
  with assms(1,4) show ?thesis by (simp add: child_fits_def)
qed

lemma extract_n_correct:
  "n \<le> nat (size_h heap) \<Longrightarrow> heap_wf heap \<Longrightarrow> 1 \<le> d_h heap \<Longrightarrow> max_heap heap \<Longrightarrow>
     child_fits heap (size_h heap) \<Longrightarrow>
     \<exists>ms h'. extract_n n heap = Inr (ms, h') \<and> heap_wf h' \<and> d_h h' = d_h heap \<and>
        max_heap h' \<and> size_h h' = size_h heap - int n \<and>
        mset ms + mset (printHeap h') = mset (printHeap heap) \<and>
        sorted_wrt (\<ge>) ms \<and> length ms = n"
proof (induction n arbitrary: heap)
  case 0
  then show ?case by simp
next
  case (Suc n)
  note wf = \<open>heap_wf heap\<close> and d = \<open>1 \<le> d_h heap\<close> and mh = \<open>max_heap heap\<close>
    and fits = \<open>child_fits heap (size_h heap)\<close>
  let ?m = "array heap ! 0"
  from Suc.prems(1) have n1: "1 \<le> size_h heap" by simp
  from heapExtractMax_returns [OF wf d n1 fits] mh
  obtain h1 where h1: "heapExtractMax heap = Inr (?m, h1)" "heap_wf h1"
    "size_h h1 = size_h heap - 1" "d_h h1 = d_h heap" "max_heap h1"
    "mset (printHeap h1) = mset (printHeap heap) - {#?m#}" by auto
  from Suc.prems(1) h1 have le: "n \<le> nat (size_h h1)" by simp
  from d h1 have d1: "1 \<le> d_h h1" by simp
  from fits d have f1: "child_fits h1 (size_h h1)"
    by (rule child_fits_smaller) (simp_all add: h1)
  from Suc.IH [OF le h1(2) d1 h1(5) f1] h1
  obtain ms h' where r: "extract_n n h1 = Inr (ms, h')" "heap_wf h'" "d_h h' = d_h heap"
    "max_heap h'" "size_h h' = size_h heap - 1 - int n"
    "mset ms + mset (printHeap h') = mset (printHeap h1)"
    "sorted_wrt (\<ge>) ms" "length ms = n" by auto
  from n1 have "0 < length (printHeap heap)"
    using heap_wf_size [OF wf] by (simp add: printHeap_def)
  then have "printHeap heap ! 0 \<in># mset (printHeap heap)" by simp
  with n1 have mem: "?m \<in># mset (printHeap heap)" by (simp add: printHeap_def)
  have below: "x \<le> ?m" if "x \<in> set ms" for x
  proof -
    from that have "x \<in># mset ms + mset (printHeap h')" by simp
    with r(6) h1(6) have "x \<in># mset (printHeap heap) - {#?m#}" by simp
    then have "x \<in> set (printHeap heap)" by (auto dest: in_diffD)
    with wf d mh show ?thesis by (rule max_heap_root)
  qed
  from h1(1) r(1) have "extract_n (Suc n) heap = Inr (?m # ms, h')" by simp
  moreover from r(6) h1(6) mem
  have "mset (?m # ms) + mset (printHeap h') = mset (printHeap heap)" by simp
  moreover from below r(7) have "sorted_wrt (\<ge>) (?m # ms)" by auto
  ultimately show ?case using r by auto
qed

lemma sorted_wrt_ge_rev_sort:
  fixes ms :: "int list"
  assumes "sorted_wrt (\<ge>) ms" "mset ms = mset xs"
  shows "ms = rev (sort xs)"
proof -
  from assms(1) have "sorted (rev ms)" by (simp add: sorted_wrt_rev)
  moreover from assms(2) have "mset (rev ms) = mset xs" by simp
  ultimately have "sort xs = rev ms" by (metis properties_for_sort)
  then show ?thesis by simp
qed

lemma extract_all_correct:
  assumes "heap_wf heap" "1 \<le> d_h heap" "max_heap heap" "child_fits heap (size_h heap)"
  shows "\<exists>ms h'. extract_n (nat (size_h heap)) heap = Inr (ms, h') \<and> size_h h' = 0 \<and>
           mset ms = mset (printHeap heap) \<and> sorted_wrt (\<ge>) ms \<and>
           ms = rev (sort (printHeap heap))"
proof -
  from assms(1) have n0: "0 \<le> size_h heap" by (simp add: heap_wf_def)
  from extract_n_correct [OF order_refl assms] n0
  obtain ms h' where r: "extract_n (nat (size_h heap)) heap = Inr (ms, h')" "size_h h' = 0"
    "mset ms + mset (printHeap h') = mset (printHeap heap)" "sorted_wrt (\<ge>) ms" by auto
  from r(2) have "printHeap h' = []" by (simp add: printHeap_def)
  with r(3) have "mset ms = mset (printHeap heap)" by simp
  with r sorted_wrt_ge_rev_sort [of ms "printHeap heap"] show ?thesis by simp
qed

lemma insert_all_correct:
  "heap_wf heap \<Longrightarrow> 1 \<le> d_h heap \<Longrightarrow> max_heap heap \<Longrightarrow>
     size_h heap + int (length keys) \<le> MAX_CAPACITY \<Longrightarrow> list_all c_int keys \<Longrightarrow>
     \<exists>h'. insert_all heap keys = Inr h' \<and> heap_wf h' \<and> d_h h' = d_h heap \<and> max_heap h' \<and>
        size_h h' = size_h heap + int (length keys) \<and>
        mset (printHeap h') = mset (printHeap heap) + mset keys"
proof (induction keys arbitrary: heap)
  case Nil
  then show ?case by simp
next
  case (Cons key keys)
  from Cons.prems have room: "size_h heap < MAX_CAPACITY" and key: "c_int key" by simp_all
  from insert_h_correct [OF Cons.prems(1,2) room key] Cons.prems(3)
  obtain h1 where h1: "insert_h heap key = Inr h1" "heap_wf h1" "size_h h1 = size_h heap + 1"
    "d_h h1 = d_h heap" "mset (printHeap h1) = add_mset key (mset (printHeap heap))"
    "max_heap h1" by auto
  from Cons.prems h1 have "1 \<le> d_h h1" "size_h h1 + int (length keys) \<le> MAX_CAPACITY"
    "list_all c_int keys" by simp_all
  from Cons.IH [OF h1(2) this(1) h1(6) this(2,3)] h1
  obtain h' where "insert_all h1 keys = Inr h'" "heap_wf h'" "d_h h' = d_h heap" "max_heap h'"
    "size_h h' = size_h heap + 1 + int (length keys)"
    "mset (printHeap h') = add_mset key (mset (printHeap heap)) + mset keys" by auto
  with h1(1) show ?case by simp
qed

lemma empty_heap_wf: "c_int d \<Longrightarrow> heap_wf (heap_of [] d)"
  by (rule heap_wf_heap_of) (simp_all add: MAX_CAPACITY_def)

lemma insert_all_INT_MAX:
  "insert_all (heap_of [] INT_MAX) [5] = Inr (heap_of [5] INT_MAX)"
proof -
  let ?h = "heap_of [] INT_MAX"
  have "replicate (Suc 4999) (0::int) = 0 # replicate 4999 0" by (rule replicate_Suc)
  then have "(replicate 5000 (0::int))[0 := 5] = 5 # replicate 4999 0" by simp
  then have "(array ?h)[nat 0 := 5] = array (heap_of [5] INT_MAX)"
    by (simp add: heap_of_def MAX_CAPACITY_def)
  then have eq: "?h\<lparr>array := (array ?h)[nat 0 := 5], size_h := 1\<rparr> = heap_of [5] INT_MAX"
    by (simp add: heap_of_def)
  have "sift_up (heap_of [5] INT_MAX) 0 = Inr (heap_of [5] INT_MAX)"
    by (subst sift_up.simps) (simp add: ROOT_def)
  with eq have "insert_h ?h 5 = Inr (heap_of [5] INT_MAX)"
    by (simp add: insert_h_def Let_def in_array_def MAX_CAPACITY_def)
  then show ?thesis by simp
qed

lemma extract_n_INT_MAX:
  "extract_n 1 (heap_of [5] INT_MAX) = Inl (Undefined, heap_of [5] INT_MAX\<lparr>size_h := 0\<rparr>)"
proof -
  have "heapExtractMax (heap_of [5] INT_MAX) = Inl (Undefined, heap_of [5] INT_MAX\<lparr>size_h := 0\<rparr>)"
    by (subst heapExtractMax_INT_MAX) simp_all
  then show ?thesis by (simp add: One_nat_def)
qed

subsection \<open>Whatever heapExtractMax and delete return is a max-heap\<close>

lemma heapExtractMax_preserves:
  assumes wf: "heap_wf heap" and d: "1 \<le> d_h heap" and mh: "max_heap heap"
    and res: "heapExtractMax heap = Inr (mx, h')"
  shows "max_heap h'"
proof -
  let ?n = "size_h heap"
  let ?h2 = "heap\<lparr>array := (array heap)[0 := array heap ! nat (?n - 1)], size_h := ?n - 1\<rparr>"
  from res have n: "1 \<le> ?n" and inl: "in_array (?n - 1)"
    by (auto simp: heapExtractMax_def split: if_splits)
  with res have h': "dmaxHeapify ?h2 0 = Inr h'"
    by (auto simp: heapExtractMax_def Let_def ROOT_def split: sum.splits)
  from wf inl have "c_int (array heap ! nat (?n - 1))" by (rule heap_wf_nth)
  with wf have "heap_wf (heap\<lparr>array := (array heap)[0 := array heap ! nat (?n - 1)]\<rparr>)"
    by (rule heap_wf_update)
  with n have wf2: "heap_wf ?h2" by (simp add: heap_wf_def)
  from dmaxHeapify_frame [OF h' wf2]
  have fr: "size_h h' = ?n - 1" "d_h h' = d_h heap" by simp_all
  from mh d have "ordered (array heap) ?n (d_h heap)" by (simp add: max_heap_ordered)
  then have "ordered_down (array ?h2) (size_h ?h2) (d_h ?h2) 0"
    using d by (simp add: ordered_down_root)
  from dmaxHeapify_ordered [OF h' wf2 _ _ this] d
  have "ordered (array h') (?n - 1) (d_h heap)" by simp
  with fr d show ?thesis by (simp add: max_heap_ordered)
qed

lemma delete_preserves:
  assumes wf: "heap_wf heap" and d: "1 \<le> d_h heap" and mh: "max_heap heap"
    and res: "delete heap index = Inr h'"
  shows "max_heap h'"
proof -
  from res have lt: "index < size_h heap"
    by (auto simp: delete_def split: if_splits)
  with res obtain h1 mx where h1: "increaseKey heap index INT_MAX = Inr h1"
    and h2: "heapExtractMax h1 = Inr (mx, h')"
    by (auto simp: delete_def split: sum.splits)
  from h1 have ini: "in_array index"
    by (auto simp: increaseKey_def split: if_splits)
  then have i0: "0 \<le> index" by (simp add: in_array_def)
  from heap_wf_nth [OF wf ini] have "array heap ! nat index \<le> INT_MAX" by (simp add: c_int_def)
  from increaseKey_correct [OF wf d i0 lt c_int_INT_MAX this] h1 mh
  have "heap_wf h1" "d_h h1 = d_h heap" "max_heap h1" by auto
  with d h2 show ?thesis by (auto intro: heapExtractMax_preserves)
qed

section \<open>The claims\<close>

text \<open>
  C1. \<^verbatim>\<open>buildMaxHeap\<close> starts at index \<^verbatim>\<open>size/d - 1\<close>. For a degree of 3 or more
  this can lie below the last node that has a child, \<open>(size - 2) div d\<close>: from the
  line \<^verbatim>\<open>5 1 4 3 9\<close> with degree 3 the loop runs for index 0 only, node 1 keeps
  its larger child at index 4, and the array comes back as it was.
\<close>

theorem buildMaxHeap_degree_3_not_max_heap:
  "heap_wf (heap_of [5, 1, 4, 3, 9] 3) \<and>
   child_fits (heap_of [5, 1, 4, 3, 9] 3) 5 \<and>
   buildMaxHeap (heap_of [5, 1, 4, 3, 9] 3) = Inr (heap_of [5, 1, 4, 3, 9] 3) \<and>
   \<not> max_heap (heap_of [5, 1, 4, 3, 9] 3)"
proof -
  let ?h = "heap_of [5, 1, 4, 3, 9] 3"
  have wf: "heap_wf ?h"
    by (rule heap_wf_heap_of) (simp_all add: MAX_CAPACITY_def c_int_def INT_MIN_def INT_MAX_def)
  have fits: "child_fits ?h 5" by (simp add: child_fits_def INT_MAX_def)
  have scan: "dmaxHeapify_for ?h 0 1 0 = Inr 0"
    by (simp add: dmaxHeapify_for.simps heap_of_def child_def c_int_def in_array_def INT_MIN_def
        INT_MAX_def MAX_CAPACITY_def)
  then have heapify: "dmaxHeapify ?h 0 = Inr ?h"
    by (subst dmaxHeapify.simps) simp
  have "buildMaxHeap_for ?h (- 1) = Inr ?h"
    by (subst buildMaxHeap_for.simps) simp
  with heapify have loop: "buildMaxHeap_for ?h 0 = Inr ?h"
    by (subst buildMaxHeap_for.simps) simp
  have start: "c_div (size_h ?h) (d_h ?h) - 1 = 0"
    by (simp add: c_div_def)
  with loop have build: "buildMaxHeap ?h = Inr ?h"
    by (simp add: buildMaxHeap_def c_int_def INT_MIN_def INT_MAX_def)
  have "\<not> max_heap ?h"
  proof
    assume "max_heap ?h"
    then have "\<forall>i\<in>{0..<5}. \<forall>k\<in>{1..3}. 3 * i + k < (5::int) \<longrightarrow>
        [5::int, 1, 4, 3, 9] ! nat (3 * i + k) \<le> [5, 1, 4, 3, 9] ! nat i"
      unfolding max_heap_heap_of by simp
    then have "\<forall>k\<in>{1..3}. 3 * 1 + k < (5::int) \<longrightarrow>
        [5::int, 1, 4, 3, 9] ! nat (3 * 1 + k) \<le> [5, 1, 4, 3, 9] ! nat 1"
      by (rule bspec) simp
    then have "3 * 1 + 1 < (5::int) \<longrightarrow>
        [5::int, 1, 4, 3, 9] ! nat (3 * 1 + 1) \<le> [5, 1, 4, 3, 9] ! nat 1"
      by (rule bspec) simp
    then show False by simp
  qed
  with wf fits build show ?thesis by simp
qed

theorem buildMaxHeap_degree_3_not_max_heap_witness:
  "\<exists>heap'. buildMaxHeap (heap_of [5, 1, 4, 3, 9] 3) = Inr heap' \<and> \<not> max_heap heap'"
  using buildMaxHeap_degree_3_not_max_heap by blast

text \<open>
  C2. On a max-heap with \<open>d \<ge> 1\<close>, each operation that succeeds leaves a
  max-heap: \<^verbatim>\<open>insert\<close> below the capacity and \<^verbatim>\<open>increaseKey\<close> at a valid index,
  with a key not below the value there, return a max-heap, and every heap that
  \<^verbatim>\<open>heapExtractMax\<close> or \<^verbatim>\<open>delete\<close> returns is a max-heap. The keys are C
  \<^verbatim>\<open>int\<close>s. Besides, \<^verbatim>\<open>heapExtractMax\<close> on a heap that is not empty and
  \<^verbatim>\<open>delete\<close> at a valid index do return when the child indices are C \<^verbatim>\<open>int\<close>s
  (\<open>d < INT_MAX\<close> and \<open>d * size \<le> INT_MAX\<close>).
\<close>

theorem operations_preserve_max_heap:
  assumes "heap_wf heap" "1 \<le> d_h heap" "max_heap heap"
  shows "(size_h heap < MAX_CAPACITY \<and> c_int key \<longrightarrow>
            (\<exists>heap'. insert_h heap key = Inr heap' \<and> max_heap heap')) \<and>
         (0 \<le> i \<and> i < size_h heap \<and> array heap ! nat i \<le> key \<and> c_int key \<longrightarrow>
            (\<exists>heap'. increaseKey heap i key = Inr heap' \<and> max_heap heap')) \<and>
         (\<forall>mx heap'. heapExtractMax heap = Inr (mx, heap') \<longrightarrow> max_heap heap') \<and>
         (\<forall>heap'. delete heap index = Inr heap' \<longrightarrow> max_heap heap') \<and>
         (1 \<le> size_h heap \<and> child_fits heap (size_h heap) \<longrightarrow>
            (\<exists>mx heap'. heapExtractMax heap = Inr (mx, heap'))) \<and>
         (0 \<le> index \<and> index < size_h heap \<and> child_fits heap (size_h heap) \<longrightarrow>
            (\<exists>heap'. delete heap index = Inr heap'))"
proof (intro conjI impI allI)
  assume "size_h heap < MAX_CAPACITY \<and> c_int key"
  with insert_h_correct [OF assms(1,2), of key] assms(3)
  show "\<exists>heap'. insert_h heap key = Inr heap' \<and> max_heap heap'" by auto
next
  assume "0 \<le> i \<and> i < size_h heap \<and> array heap ! nat i \<le> key \<and> c_int key"
  with increaseKey_correct [OF assms(1,2), of i key] assms(3)
  show "\<exists>heap'. increaseKey heap i key = Inr heap' \<and> max_heap heap'" by auto
next
  fix mx heap' assume "heapExtractMax heap = Inr (mx, heap')"
  with assms show "max_heap heap'" by (rule heapExtractMax_preserves)
next
  fix heap' assume "delete heap index = Inr heap'"
  with assms show "max_heap heap'" by (rule delete_preserves)
next
  assume "1 \<le> size_h heap \<and> child_fits heap (size_h heap)"
  with heapExtractMax_returns [OF assms(1,2)] assms(3)
  show "\<exists>mx heap'. heapExtractMax heap = Inr (mx, heap')" by auto
next
  assume "0 \<le> index \<and> index < size_h heap \<and> child_fits heap (size_h heap)"
  with delete_correct [OF assms(1,2), of index] assms(3)
  show "\<exists>heap'. delete heap index = Inr heap'" by auto
qed

theorem operations_preserve_max_heap_witness:
  "heap_wf (heap_of [9, 6, 4, 1, 5, 3, 2, 1] 2) \<and>
   max_heap (heap_of [9, 6, 4, 1, 5, 3, 2, 1] 2) \<and>
   child_fits (heap_of [9, 6, 4, 1, 5, 3, 2, 1] 2) 8 \<and>
   (\<exists>heap'. insert_h (heap_of [9, 6, 4, 1, 5, 3, 2, 1] 2) 10 = Inr heap' \<and> max_heap heap') \<and>
   (\<exists>heap'. increaseKey (heap_of [9, 6, 4, 1, 5, 3, 2, 1] 2) 3 20 = Inr heap' \<and> max_heap heap') \<and>
   (\<exists>mx heap'. heapExtractMax (heap_of [9, 6, 4, 1, 5, 3, 2, 1] 2) = Inr (mx, heap') \<and>
      max_heap heap') \<and>
   (\<exists>heap'. delete (heap_of [9, 6, 4, 1, 5, 3, 2, 1] 2) 1 = Inr heap' \<and> max_heap heap')"
proof -
  let ?h = "heap_of [9, 6, 4, 1, 5, 3, 2, 1] 2"
  have d: "(1::int) \<le> d_h ?h" by simp
  have k: "c_int 20" by (simp add: c_int_def INT_MIN_def INT_MAX_def)
  have a: "array ?h ! nat 3 = 1" using nth_heap_of [of 3 "[9, 6, 4, 1, 5, 3, 2, 1]" 2] by simp
  have f: "child_fits ?h (size_h ?h)" using example_fits by simp
  note t = operations_preserve_max_heap [OF example_wf d example_max_heap, of 20 3 1]
  from t k have "\<exists>heap'. insert_h ?h 20 = Inr heap' \<and> max_heap heap'"
    by (simp add: MAX_CAPACITY_def)
  then have "\<exists>heap'. insert_h ?h 10 = Inr heap' \<and> max_heap heap'"
    using operations_preserve_max_heap [OF example_wf d example_max_heap, of 10 3 1]
    by (simp add: MAX_CAPACITY_def c_int_def INT_MIN_def INT_MAX_def)
  moreover from t k a have "\<exists>heap'. increaseKey ?h 3 20 = Inr heap' \<and> max_heap heap'"
    by simp
  moreover have "\<exists>mx heap'. heapExtractMax ?h = Inr (mx, heap') \<and> max_heap heap'"
  proof -
    from t f obtain mx heap' where "heapExtractMax ?h = Inr (mx, heap')" by auto
    moreover with t have "max_heap heap'" by blast
    ultimately show ?thesis by blast
  qed
  moreover have "\<exists>heap'. delete ?h 1 = Inr heap' \<and> max_heap heap'"
  proof -
    from t f obtain heap' where "delete ?h 1 = Inr heap'" by auto
    moreover with t have "max_heap heap'" by blast
    ultimately show ?thesis by blast
  qed
  ultimately show ?thesis using example_wf example_max_heap example_fits by simp
qed

text \<open>
  C3. \<^verbatim>\<open>heapExtractMax\<close> stops with the underflow error exactly when the size is
  0. Otherwise, on a max-heap with \<open>d \<ge> 1\<close> whose child indices are C \<^verbatim>\<open>int\<close>s
  (\<open>d < INT_MAX\<close> and \<open>d * size \<le> INT_MAX\<close>), it returns the value at index 0,
  which is the maximum of the valid elements; the heap it leaves is the result
  of \<^verbatim>\<open>dmaxHeapify\<close> at the root after the last valid element was moved into
  slot 0 and the size decremented, and it is a max-heap again.
\<close>

theorem heapExtractMax_returns_maximum:
  assumes "heap_wf heap" "1 \<le> d_h heap"
  shows "((\<exists>s. heapExtractMax heap = Inl (Underflow, s)) = (size_h heap = 0)) \<and>
         (size_h heap = 0 \<longrightarrow> heapExtractMax heap = Inl (Underflow, heap)) \<and>
         (1 \<le> size_h heap \<and> max_heap heap \<and> child_fits heap (size_h heap) \<longrightarrow>
            (\<exists>heap'. heapExtractMax heap = Inr (array heap ! nat ROOT, heap') \<and>
               array heap ! nat ROOT \<in> set (printHeap heap) \<and>
               (\<forall>x\<in>set (printHeap heap). x \<le> array heap ! nat ROOT) \<and>
               dmaxHeapify
                 (heap\<lparr>array := (array heap)[nat ROOT := array heap ! nat (size_h heap - 1)],
                       size_h := size_h heap - 1\<rparr>) ROOT = Inr heap' \<and>
               size_h heap' = size_h heap - 1 \<and> max_heap heap'))"
proof (intro conjI impI)
  from assms(1) have "0 \<le> size_h heap" by (simp add: heap_wf_def)
  then show "(\<exists>s. heapExtractMax heap = Inl (Underflow, s)) = (size_h heap = 0)"
    by (auto simp: heapExtractMax_Underflow)
next
  assume "size_h heap = 0"
  then show "heapExtractMax heap = Inl (Underflow, heap)"
    by (simp add: heapExtractMax_def)
next
  assume a: "1 \<le> size_h heap \<and> max_heap heap \<and> child_fits heap (size_h heap)"
  with heapExtractMax_returns [OF assms, of] obtain h'
    where h': "heapExtractMax heap = Inr (array heap ! 0, h')"
      "dmaxHeapify (heap\<lparr>array := (array heap)[0 := array heap ! nat (size_h heap - 1)],
                         size_h := size_h heap - 1\<rparr>) 0 = Inr h'"
      "size_h h' = size_h heap - 1" "max_heap h'"
    by auto
  from a assms(1) have "0 < length (printHeap heap)"
    using heap_wf_size [OF assms(1)] by (simp add: printHeap_def)
  then have "printHeap heap ! 0 \<in> set (printHeap heap)" by (rule nth_mem)
  with a have mem: "array heap ! 0 \<in> set (printHeap heap)" by (simp add: printHeap_def)
  from a assms have "\<forall>x\<in>set (printHeap heap). x \<le> array heap ! 0"
    by (auto intro: max_heap_root)
  with h' mem
  show "\<exists>heap'. heapExtractMax heap = Inr (array heap ! nat ROOT, heap') \<and>
          array heap ! nat ROOT \<in> set (printHeap heap) \<and>
          (\<forall>x\<in>set (printHeap heap). x \<le> array heap ! nat ROOT) \<and>
          dmaxHeapify
            (heap\<lparr>array := (array heap)[nat ROOT := array heap ! nat (size_h heap - 1)],
                  size_h := size_h heap - 1\<rparr>) ROOT = Inr heap' \<and>
          size_h heap' = size_h heap - 1 \<and> max_heap heap'"
    by (simp add: ROOT_def)
qed

theorem heapExtractMax_returns_maximum_witness:
  "heap_wf (heap_of [9, 6, 4, 1, 5, 3, 2, 1] 2) \<and>
   max_heap (heap_of [9, 6, 4, 1, 5, 3, 2, 1] 2) \<and>
   child_fits (heap_of [9, 6, 4, 1, 5, 3, 2, 1] 2) 8 \<and>
   (\<exists>heap'. heapExtractMax (heap_of [9, 6, 4, 1, 5, 3, 2, 1] 2) = Inr (9, heap') \<and>
      size_h heap' = 7 \<and> max_heap heap')"
proof -
  let ?h = "heap_of [9, 6, 4, 1, 5, 3, 2, 1] 2"
  have root: "array ?h ! nat ROOT = 9" by (simp add: heap_of_def ROOT_def)
  have "(1::int) \<le> d_h ?h" by simp
  from heapExtractMax_returns_maximum [OF example_wf this] example_max_heap example_fits root
  have "\<exists>heap'. heapExtractMax ?h = Inr (9, heap') \<and> size_h heap' = 7 \<and> max_heap heap'"
    by auto
  with example_wf example_max_heap example_fits show ?thesis by simp
qed

text \<open>
  With the degree \<^verbatim>\<open>INT_MAX\<close>, which \<^verbatim>\<open>main\<close> accepts, the call on a one-element
  max-heap returns nothing: the scan of \<^verbatim>\<open>dmaxHeapify\<close> overflows its counter.
\<close>

theorem heapExtractMax_returns_maximum_counterexample:
  "heap_wf (heap_of [5] INT_MAX) \<and> 1 \<le> d_h (heap_of [5] INT_MAX) \<and>
   size_h (heap_of [5] INT_MAX) = 1 \<and> max_heap (heap_of [5] INT_MAX) \<and>
   heapExtractMax (heap_of [5] INT_MAX) = Inl (Undefined, heap_of [5] INT_MAX\<lparr>size_h := 0\<rparr>)"
proof -
  have "heapExtractMax (heap_of [5] INT_MAX) = Inl (Undefined, heap_of [5] INT_MAX\<lparr>size_h := 0\<rparr>)"
    by (subst heapExtractMax_INT_MAX) simp_all
  with overflow_wf overflow_max_heap show ?thesis by (simp add: INT_MAX_def)
qed

text \<open>
  C4. From a max-heap of \<open>n\<close> elements with \<open>d \<ge> 1\<close> whose child indices are C
  \<^verbatim>\<open>int\<close>s (\<open>d < INT_MAX\<close> and \<open>d * n \<le> INT_MAX\<close>), \<open>n\<close> calls of \<^verbatim>\<open>heapExtractMax\<close>
  return, in this order, the valid elements of the heap sorted in non-increasing
  order, each as often as it occurs, and leave the heap empty.
\<close>

theorem extract_all_non_increasing:
  assumes "heap_wf heap" "1 \<le> d_h heap" "max_heap heap" "child_fits heap (size_h heap)"
  shows "\<exists>ms heap'. extract_n (nat (size_h heap)) heap = Inr (ms, heap') \<and>
           size_h heap' = 0 \<and> length ms = nat (size_h heap) \<and>
           mset ms = mset (printHeap heap) \<and> sorted_wrt (\<ge>) ms \<and>
           ms = rev (sort (printHeap heap))"
proof -
  from extract_all_correct [OF assms]
  obtain ms h' where r: "extract_n (nat (size_h heap)) heap = Inr (ms, h')" "size_h h' = 0"
    "mset ms = mset (printHeap heap)" "sorted_wrt (\<ge>) ms" "ms = rev (sort (printHeap heap))"
    by blast
  from r(3) have "length ms = length (printHeap heap)" by (rule mset_eq_length)
  with heap_wf_size [OF assms(1)] have "length ms = nat (size_h heap)"
    by (simp add: printHeap_def)
  with r show ?thesis by blast
qed

theorem extract_all_non_increasing_witness:
  "heap_wf (heap_of [9, 6, 4, 1, 5, 3, 2, 1] 2) \<and>
   max_heap (heap_of [9, 6, 4, 1, 5, 3, 2, 1] 2) \<and>
   child_fits (heap_of [9, 6, 4, 1, 5, 3, 2, 1] 2) 8 \<and>
   (\<exists>heap'. extract_n 8 (heap_of [9, 6, 4, 1, 5, 3, 2, 1] 2) =
      Inr ([9, 6, 5, 4, 3, 2, 1, 1], heap') \<and> size_h heap' = 0)"
proof -
  let ?h = "heap_of [9, 6, 4, 1, 5, 3, 2, 1] 2"
  have d: "(1::int) \<le> d_h ?h" by simp
  have f: "child_fits ?h (size_h ?h)" using example_fits by simp
  have s: "rev (sort [9::int, 6, 4, 1, 5, 3, 2, 1]) = [9, 6, 5, 4, 3, 2, 1, 1]" by simp
  from extract_all_non_increasing [OF example_wf d example_max_heap f] s
  have "\<exists>heap'. extract_n 8 ?h = Inr ([9, 6, 5, 4, 3, 2, 1, 1], heap') \<and> size_h heap' = 0"
    by auto
  with example_wf example_max_heap example_fits show ?thesis by simp
qed

text \<open>
  With the degree \<^verbatim>\<open>INT_MAX\<close> the one call on the one-element max-heap returns
  no key.
\<close>

theorem extract_all_non_increasing_counterexample:
  "heap_wf (heap_of [5] INT_MAX) \<and> 1 \<le> d_h (heap_of [5] INT_MAX) \<and>
   max_heap (heap_of [5] INT_MAX) \<and> nat (size_h (heap_of [5] INT_MAX)) = 1 \<and>
   extract_n 1 (heap_of [5] INT_MAX) = Inl (Undefined, heap_of [5] INT_MAX\<lparr>size_h := 0\<rparr>)"
  using overflow_wf overflow_max_heap extract_n_INT_MAX by (simp add: INT_MAX_def)

text \<open>
  C5. For an empty heap of degree \<open>d \<ge> 1\<close> and a list of keys no longer than the
  capacity, with child indices that are C \<^verbatim>\<open>int\<close>s (\<open>d < INT_MAX\<close> and \<open>d\<close> times
  the number of keys at most \<^verbatim>\<open>INT_MAX\<close>): inserting the keys one by one and
  then calling \<^verbatim>\<open>heapExtractMax\<close> until the heap is empty returns the keys sorted
  in descending order, each as often as it occurs.
\<close>

theorem insert_then_extract_sorts_descending:
  assumes "heap_wf heap" "size_h heap = 0" "1 \<le> d_h heap"
    and "child_fits heap (int (length keys))"
    and "int (length keys) \<le> MAX_CAPACITY" "list_all c_int keys"
  shows "\<exists>heap1 ms heap2. insert_all heap keys = Inr heap1 \<and>
           size_h heap1 = int (length keys) \<and>
           extract_n (nat (size_h heap1)) heap1 = Inr (ms, heap2) \<and> size_h heap2 = 0 \<and>
           mset ms = mset keys \<and> sorted_wrt (\<ge>) ms \<and> ms = rev (sort keys)"
proof -
  from assms(2) have mh: "max_heap heap" by (simp add: max_heap_def)
  from assms(2) have e: "printHeap heap = []" by (simp add: printHeap_def)
  from assms(2,5) have room: "size_h heap + int (length keys) \<le> MAX_CAPACITY" by simp
  from insert_all_correct [OF assms(1,3) mh room assms(6)] assms(2) e
  obtain h where h: "insert_all heap keys = Inr h" "heap_wf h" "d_h h = d_h heap" "max_heap h"
    "size_h h = int (length keys)" "mset (printHeap h) = mset keys" by auto
  from assms(4) h have fits: "child_fits h (size_h h)" by (simp add: child_fits_def)
  from assms(3) h have d': "1 \<le> d_h h" by simp
  from extract_all_correct [OF h(2) d' h(4) fits]
  obtain ms h' where r: "extract_n (nat (size_h h)) h = Inr (ms, h')" "size_h h' = 0"
    "mset ms = mset (printHeap h)" "sorted_wrt (\<ge>) ms" by blast
  from r(3) h(6) have ms: "mset ms = mset keys" by simp
  with r(4) have "ms = rev (sort keys)" by (intro sorted_wrt_ge_rev_sort)
  with h r ms show ?thesis by blast
qed

theorem insert_then_extract_sorts_descending_witness:
  "heap_wf (heap_of [] 4) \<and> size_h (heap_of [] 4) = 0 \<and>
   (\<exists>heap1 heap2. insert_all (heap_of [] 4) [3, 1, 4, 1, 5, 9, 2, 6] = Inr heap1 \<and>
      size_h heap1 = 8 \<and>
      extract_n 8 heap1 = Inr ([9, 6, 5, 4, 3, 2, 1, 1], heap2) \<and> size_h heap2 = 0)"
proof -
  let ?e = "heap_of [] 4"
  have s: "rev (sort [3::int, 1, 4, 1, 5, 9, 2, 6]) = [9, 6, 5, 4, 3, 2, 1, 1]" by simp
  have k: "list_all c_int [3, 1, 4, 1, 5, 9, 2, 6]"
    by (simp add: c_int_def INT_MIN_def INT_MAX_def)
  have wf: "heap_wf ?e"
    by (rule empty_heap_wf) (simp add: c_int_def INT_MIN_def INT_MAX_def)
  have e: "size_h ?e = 0" by simp
  have d: "1 \<le> d_h ?e" by simp
  have f: "child_fits ?e (int (length [3::int, 1, 4, 1, 5, 9, 2, 6]))"
    by (simp add: child_fits_def INT_MAX_def)
  have c: "int (length [3::int, 1, 4, 1, 5, 9, 2, 6]) \<le> MAX_CAPACITY"
    by (simp add: MAX_CAPACITY_def)
  from insert_then_extract_sorts_descending [OF wf e d f c k]
  obtain heap1 ms heap2 where "insert_all ?e [3, 1, 4, 1, 5, 9, 2, 6] = Inr heap1"
    "size_h heap1 = 8" "extract_n (nat (size_h heap1)) heap1 = Inr (ms, heap2)"
    "size_h heap2 = 0" "ms = rev (sort [3, 1, 4, 1, 5, 9, 2, 6])"
    by auto
  with s have "\<exists>heap1 heap2. insert_all ?e [3, 1, 4, 1, 5, 9, 2, 6] = Inr heap1 \<and>
      size_h heap1 = 8 \<and>
      extract_n 8 heap1 = Inr ([9, 6, 5, 4, 3, 2, 1, 1], heap2) \<and> size_h heap2 = 0"
    by auto
  with wf e show ?thesis by simp
qed

text \<open>
  With the degree \<^verbatim>\<open>INT_MAX\<close> the key 5 is inserted into the empty heap and
  never comes back.
\<close>

theorem insert_then_extract_sorts_descending_counterexample:
  "heap_wf (heap_of [] INT_MAX) \<and> size_h (heap_of [] INT_MAX) = 0 \<and>
   1 \<le> d_h (heap_of [] INT_MAX) \<and> int (length [5::int]) \<le> MAX_CAPACITY \<and> c_int 5 \<and>
   insert_all (heap_of [] INT_MAX) [5] = Inr (heap_of [5] INT_MAX) \<and>
   nat (size_h (heap_of [5] INT_MAX)) = 1 \<and>
   extract_n 1 (heap_of [5] INT_MAX) = Inl (Undefined, heap_of [5] INT_MAX\<lparr>size_h := 0\<rparr>)"
proof -
  have "heap_wf (heap_of [] INT_MAX)"
    by (rule empty_heap_wf) (rule c_int_INT_MAX)
  with insert_all_INT_MAX extract_n_INT_MAX show ?thesis
    by (simp add: INT_MAX_def MAX_CAPACITY_def c_int_def INT_MIN_def)
qed

text \<open>
  C6. \<^verbatim>\<open>insert\<close> stops with the overflow error, the heap untouched, when the size
  is the capacity, and otherwise returns a heap one larger. \<^verbatim>\<open>heapExtractMax\<close>
  stops with the underflow error, the heap untouched, when the size is 0, and
  \<^verbatim>\<open>delete\<close> with the index error, the heap untouched, when the index is not
  below the size; otherwise, for an index that is not negative and child indices
  that are C \<^verbatim>\<open>int\<close>s, each returns a heap one smaller.
\<close>

theorem size_bookkeeping:
  assumes "heap_wf heap" "1 \<le> d_h heap"
  shows "(size_h heap = MAX_CAPACITY \<longrightarrow> insert_h heap key = Inl (Overflow, heap)) \<and>
         (size_h heap \<noteq> MAX_CAPACITY \<and> c_int key \<longrightarrow>
            (\<exists>heap'. insert_h heap key = Inr heap' \<and> size_h heap' = size_h heap + 1)) \<and>
         (size_h heap = 0 \<longrightarrow> heapExtractMax heap = Inl (Underflow, heap)) \<and>
         (size_h heap \<noteq> 0 \<and> child_fits heap (size_h heap) \<longrightarrow>
            (\<exists>mx heap'. heapExtractMax heap = Inr (mx, heap') \<and>
               size_h heap' = size_h heap - 1)) \<and>
         (size_h heap \<le> index \<longrightarrow> delete heap index = Inl (IndexOutOfBounds, heap)) \<and>
         (0 \<le> index \<and> index < size_h heap \<and> child_fits heap (size_h heap) \<longrightarrow>
            (\<exists>heap'. delete heap index = Inr heap' \<and> size_h heap' = size_h heap - 1))"
proof (intro conjI impI)
  assume "size_h heap = MAX_CAPACITY"
  then show "insert_h heap key = Inl (Overflow, heap)" by (simp add: insert_h_def)
next
  assume "size_h heap \<noteq> MAX_CAPACITY \<and> c_int key"
  moreover with assms(1) have "size_h heap < MAX_CAPACITY" by (simp add: heap_wf_def)
  ultimately show "\<exists>heap'. insert_h heap key = Inr heap' \<and> size_h heap' = size_h heap + 1"
    using insert_h_correct [OF assms, of key] by auto
next
  assume "size_h heap = 0"
  then show "heapExtractMax heap = Inl (Underflow, heap)" by (simp add: heapExtractMax_def)
next
  assume "size_h heap \<noteq> 0 \<and> child_fits heap (size_h heap)"
  moreover with assms(1) have "1 \<le> size_h heap" by (simp add: heap_wf_def)
  ultimately show "\<exists>mx heap'. heapExtractMax heap = Inr (mx, heap') \<and>
      size_h heap' = size_h heap - 1"
    using heapExtractMax_returns [OF assms] by auto
next
  assume "size_h heap \<le> index"
  then show "delete heap index = Inl (IndexOutOfBounds, heap)" by (simp add: delete_def)
next
  assume "0 \<le> index \<and> index < size_h heap \<and> child_fits heap (size_h heap)"
  then show "\<exists>heap'. delete heap index = Inr heap' \<and> size_h heap' = size_h heap - 1"
    using delete_returns [OF assms, of index] by auto
qed

theorem size_bookkeeping_witness:
  "heap_wf (heap_of [9, 6, 4, 1, 5, 3, 2, 1] 2) \<and>
   child_fits (heap_of [9, 6, 4, 1, 5, 3, 2, 1] 2) 8 \<and>
   (\<exists>heap'. insert_h (heap_of [9, 6, 4, 1, 5, 3, 2, 1] 2) 10 = Inr heap' \<and> size_h heap' = 9) \<and>
   (\<exists>mx heap'. heapExtractMax (heap_of [9, 6, 4, 1, 5, 3, 2, 1] 2) = Inr (mx, heap') \<and>
      size_h heap' = 7) \<and>
   (\<exists>heap'. delete (heap_of [9, 6, 4, 1, 5, 3, 2, 1] 2) 1 = Inr heap' \<and> size_h heap' = 7) \<and>
   delete (heap_of [9, 6, 4, 1, 5, 3, 2, 1] 2) 8 =
     Inl (IndexOutOfBounds, heap_of [9, 6, 4, 1, 5, 3, 2, 1] 2)"
proof -
  let ?h = "heap_of [9, 6, 4, 1, 5, 3, 2, 1] 2"
  have d: "(1::int) \<le> d_h ?h" by simp
  have k: "c_int 10" by (simp add: c_int_def INT_MIN_def INT_MAX_def)
  from size_bookkeeping [OF example_wf d, of 10 1] k example_fits
  have "\<exists>heap'. insert_h ?h 10 = Inr heap' \<and> size_h heap' = 9"
    and "\<exists>mx heap'. heapExtractMax ?h = Inr (mx, heap') \<and> size_h heap' = 7"
    and "\<exists>heap'. delete ?h 1 = Inr heap' \<and> size_h heap' = 7"
    by (simp_all add: MAX_CAPACITY_def)
  moreover from size_bookkeeping [OF example_wf d, of 10 8]
  have "delete ?h 8 = Inl (IndexOutOfBounds, ?h)" by simp
  ultimately show ?thesis using example_wf example_fits by simp
qed

text \<open>
  With the degree \<^verbatim>\<open>INT_MAX\<close>, \<^verbatim>\<open>heapExtractMax\<close> on a heap of size 1 neither
  returns a heap of size 0 nor stops with the underflow error; with the index
  -1, \<^verbatim>\<open>delete\<close> passes its only test and writes outside the array.
\<close>

theorem size_bookkeeping_counterexample:
  "heap_wf (heap_of [5] INT_MAX) \<and> 1 \<le> d_h (heap_of [5] INT_MAX) \<and>
   size_h (heap_of [5] INT_MAX) = 1 \<and>
   heapExtractMax (heap_of [5] INT_MAX) = Inl (Undefined, heap_of [5] INT_MAX\<lparr>size_h := 0\<rparr>) \<and>
   heap_wf (heap_of [9, 6, 4] 2) \<and>
   delete (heap_of [9, 6, 4] 2) (- 1) = Inl (Undefined, heap_of [9, 6, 4] 2)"
proof -
  have "heapExtractMax (heap_of [5] INT_MAX) = Inl (Undefined, heap_of [5] INT_MAX\<lparr>size_h := 0\<rparr>)"
    by (subst heapExtractMax_INT_MAX) simp_all
  moreover have "heap_wf (heap_of [9, 6, 4] 2)"
    by (rule heap_wf_heap_of) (simp_all add: MAX_CAPACITY_def c_int_def INT_MIN_def INT_MAX_def)
  moreover have "delete (heap_of [9, 6, 4] 2) (- 1) = Inl (Undefined, heap_of [9, 6, 4] 2)"
    by (simp add: delete_def increaseKey_def in_array_def)
  ultimately show ?thesis using overflow_wf by (simp add: INT_MAX_def)
qed

text \<open>
  C7. On a max-heap with \<open>d \<ge> 1\<close>, \<^verbatim>\<open>delete\<close> stops with the index error when
  the index is not below the size. At an index \<open>0 \<le> index < size\<close>, when the child
  indices are C \<^verbatim>\<open>int\<close>s (\<open>d < INT_MAX\<close> and \<open>d * size \<le> INT_MAX\<close>), it returns a
  max-heap one smaller whose valid elements are those of the heap less one
  occurrence of the value at the index.
\<close>

theorem delete_removes_the_element:
  assumes "heap_wf heap" "1 \<le> d_h heap" "max_heap heap"
  shows "(size_h heap \<le> index \<longrightarrow> delete heap index = Inl (IndexOutOfBounds, heap)) \<and>
         (0 \<le> index \<and> index < size_h heap \<and> child_fits heap (size_h heap) \<longrightarrow>
            (\<exists>heap'. delete heap index = Inr heap' \<and>
               mset (printHeap heap') = mset (printHeap heap) - {#array heap ! nat index#} \<and>
               max_heap heap' \<and> size_h heap' = size_h heap - 1))"
proof (intro conjI impI)
  assume "size_h heap \<le> index"
  then show "delete heap index = Inl (IndexOutOfBounds, heap)" by (simp add: delete_def)
next
  assume "0 \<le> index \<and> index < size_h heap \<and> child_fits heap (size_h heap)"
  with delete_correct [OF assms(1,2), of index] assms(3)
  show "\<exists>heap'. delete heap index = Inr heap' \<and>
      mset (printHeap heap') = mset (printHeap heap) - {#array heap ! nat index#} \<and>
      max_heap heap' \<and> size_h heap' = size_h heap - 1"
    by auto
qed

theorem delete_removes_the_element_witness:
  "heap_wf (heap_of [9, 6, 4, 1, 5, 3, 2, 1] 2) \<and>
   max_heap (heap_of [9, 6, 4, 1, 5, 3, 2, 1] 2) \<and>
   child_fits (heap_of [9, 6, 4, 1, 5, 3, 2, 1] 2) 8 \<and>
   (\<exists>heap'. delete (heap_of [9, 6, 4, 1, 5, 3, 2, 1] 2) 1 = Inr heap' \<and>
      mset (printHeap heap') = {#9, 4, 1, 5, 3, 2, 1#} \<and> max_heap heap' \<and> size_h heap' = 7)"
proof -
  let ?h = "heap_of [9, 6, 4, 1, 5, 3, 2, 1] 2"
  have d: "(1::int) \<le> d_h ?h" by simp
  have a: "array ?h ! nat 1 = 6" using nth_heap_of [of 1 "[9, 6, 4, 1, 5, 3, 2, 1]" 2] by simp
  from delete_removes_the_element [OF example_wf d example_max_heap, of 1] example_fits a
  have "\<exists>heap'. delete ?h 1 = Inr heap' \<and>
      mset (printHeap heap') = {#9, 4, 1, 5, 3, 2, 1#} \<and> max_heap heap' \<and> size_h heap' = 7"
    by simp
  with example_wf example_max_heap example_fits show ?thesis by simp
qed

theorem delete_removes_the_element_counterexample:
  "heap_wf (heap_of [5] INT_MAX) \<and> 1 \<le> d_h (heap_of [5] INT_MAX) \<and>
   max_heap (heap_of [5] INT_MAX) \<and> (0::int) < size_h (heap_of [5] INT_MAX) \<and>
   delete (heap_of [5] INT_MAX) 0 = Inl (Undefined, heap_of [INT_MAX] INT_MAX\<lparr>size_h := 0\<rparr>)"
  using overflow_wf overflow_max_heap delete_INT_MAX by (simp add: INT_MAX_def)

text \<open>
  C8. On a max-heap with \<open>d \<ge> 1\<close> and an index \<open>0 \<le> i < size\<close>, \<^verbatim>\<open>increaseKey\<close>
  stops with the invalid-key error exactly when the key is below the value at
  \<open>i\<close>; with the key equal to that value it returns the heap unchanged.
\<close>

theorem increaseKey_invalid_key_iff:
  assumes "heap_wf heap" "1 \<le> d_h heap" "max_heap heap" "0 \<le> i" "i < size_h heap"
  shows "((\<exists>s. increaseKey heap i key = Inl (InvalidKey, s)) = (key < array heap ! nat i)) \<and>
         (key < array heap ! nat i \<longrightarrow> increaseKey heap i key = Inl (InvalidKey, heap)) \<and>
         increaseKey heap i (array heap ! nat i) = Inr heap"
proof -
  from assms have ini: "in_array i" by (simp add: heap_wf_def in_array_def)
  then have "(\<exists>s. increaseKey heap i key = Inl (InvalidKey, s)) = (key < array heap ! nat i)"
    by (rule increaseKey_InvalidKey)
  moreover from ini have "key < array heap ! nat i \<longrightarrow> increaseKey heap i key = Inl (InvalidKey, heap)"
    by (simp add: increaseKey_def)
  moreover from assms have "increaseKey heap i (array heap ! nat i) = Inr heap"
    by (intro increaseKey_same)
  ultimately show ?thesis by simp
qed

theorem increaseKey_invalid_key_iff_witness:
  "heap_wf (heap_of [9, 6, 4, 1, 5, 3, 2, 1] 2) \<and> max_heap (heap_of [9, 6, 4, 1, 5, 3, 2, 1] 2) \<and>
   increaseKey (heap_of [9, 6, 4, 1, 5, 3, 2, 1] 2) 4 0 =
     Inl (InvalidKey, heap_of [9, 6, 4, 1, 5, 3, 2, 1] 2) \<and>
   increaseKey (heap_of [9, 6, 4, 1, 5, 3, 2, 1] 2) 4 5 = Inr (heap_of [9, 6, 4, 1, 5, 3, 2, 1] 2)"
proof -
  have "array (heap_of [9, 6, 4, 1, 5, 3, 2, 1] 2) ! nat 4 = 5"
    using nth_heap_of [of 4 "[9, 6, 4, 1, 5, 3, 2, 1]" 2] by simp
  with increaseKey_invalid_key_iff [OF example_wf _ example_max_heap, of 4 0]
    example_wf example_max_heap
  show ?thesis by simp
qed

text \<open>
  C9. In a round of \<^verbatim>\<open>dmaxHeapify\<close> at \<open>i\<close>, on a heap whose degree is below
  \<^verbatim>\<open>INT_MAX\<close>, where some child below the size holds a value strictly above that
  of \<open>i\<close>: the scan returns the child of lowest index among those of maximal
  value; the round swaps it with \<open>i\<close> and goes on from the child's index; and
  the heap the call leaves behind holds at position \<open>i\<close> the value that child
  had.
\<close>

theorem dmaxHeapify_swaps_leftmost_largest_child:
  assumes "heap_wf heap" "0 \<le> i" "d_h heap < INT_MAX"
    and "\<exists>k. 1 \<le> k \<and> k \<le> d_h heap \<and> d_h heap * i + k < size_h heap \<and>
             array heap ! nat i < array heap ! nat (d_h heap * i + k)"
  shows "\<exists>l k. dmaxHeapify_for heap i 1 i = Inr l \<and>
           1 \<le> k \<and> k \<le> d_h heap \<and> l = d_h heap * i + k \<and> l < size_h heap \<and>
           (\<forall>k'. 1 \<le> k' \<and> k' \<le> d_h heap \<and> d_h heap * i + k' < size_h heap \<longrightarrow>
                 array heap ! nat (d_h heap * i + k') \<le> array heap ! nat l) \<and>
           (\<forall>k'. 1 \<le> k' \<and> k' < k \<longrightarrow>
                 array heap ! nat (d_h heap * i + k') < array heap ! nat l) \<and>
           dmaxHeapify heap i = dmaxHeapify (heap\<lparr>array := swap (array heap) i l\<rparr>) l \<and>
           swap (array heap) i l ! nat i = array heap ! nat l \<and>
           swap (array heap) i l ! nat l = array heap ! nat i \<and>
           array (heap_after (dmaxHeapify heap i)) ! nat i = array heap ! nat l"
proof -
  from assms(4) obtain k0 where k0: "1 \<le> k0" "k0 \<le> d_h heap"
    "d_h heap * i + k0 < size_h heap"
    "array heap ! nat i < array heap ! nat (d_h heap * i + k0)" by blast
  from assms(1) have cap: "size_h heap \<le> MAX_CAPACITY" by (simp add: heap_wf_def)
  from k0 assms(2) have "i < d_h heap * i + k0" by (intro child_above)
  with k0 cap assms(2) have ini: "in_array i" by (simp add: in_array_def)
  have fit: "d_h heap * i + d_h heap \<le> INT_MAX"
  proof (cases "i = 0")
    case True
    with assms(3) show ?thesis by simp
  next
    case False
    with assms(2) have "1 \<le> i" by simp
    with k0 have "d_h heap * 1 \<le> d_h heap * i" by (intro mult_left_mono) simp_all
    moreover from k0 cap have "d_h heap * i < MAX_CAPACITY" by simp
    ultimately show ?thesis by (simp add: MAX_CAPACITY_def INT_MAX_def)
  qed
  from dmaxHeapify_for_returns [OF assms(2) cap assms(3) fit _ ini, of 1]
  obtain l where scan: "dmaxHeapify_for heap i 1 i = Inr l" by auto
  note mx = dmaxHeapify_for_max [OF scan]
  from mx k0 have "array heap ! nat (d_h heap * i + k0) \<le> array heap ! nat l" by blast
  with k0 have ne: "l \<noteq> i" by auto
  from dmaxHeapify_for_range [OF scan] ne obtain k
    where k: "1 \<le> k" "k \<le> d_h heap" "l = d_h heap * i + k" "l < size_h heap" by blast
  from dmaxHeapify_for_above [OF scan ne]
  have b: "i < l" "in_array i" "in_array l" by simp_all
  have all: "\<forall>k'. 1 \<le> k' \<and> k' \<le> d_h heap \<and> d_h heap * i + k' < size_h heap \<longrightarrow>
      array heap ! nat (d_h heap * i + k') \<le> array heap ! nat l"
    using mx by blast
  have left: "\<forall>k'. 1 \<le> k' \<and> k' < k \<longrightarrow>
      array heap ! nat (d_h heap * i + k') < array heap ! nat l"
    using mx ne k(3) by simp
  have step: "dmaxHeapify heap i = dmaxHeapify (heap\<lparr>array := swap (array heap) i l\<rparr>) l"
    using scan ne by (subst dmaxHeapify.simps) simp
  from b have l0: "0 \<le> l" by (simp add: in_array_def)
  from assms(1) b have len: "nat i < length (array heap)" "nat l < length (array heap)"
    by (simp_all add: heap_wf_in_array)
  from l0 len b(1) assms(2)
  have sw: "swap (array heap) i l ! nat i = array heap ! nat l"
    "swap (array heap) i l ! nat l = array heap ! nat i"
    by (simp_all add: nth_swap)
  from b(1) assms(2) have "nat i < nat l" by simp
  from dmaxHeapify_below [OF this, of "heap\<lparr>array := swap (array heap) i l\<rparr>"] step sw
  have fin: "array (heap_after (dmaxHeapify heap i)) ! nat i = array heap ! nat l" by simp
  from scan k all left step sw fin show ?thesis by blast
qed

text \<open>
  The root 1 over the children 3, 7 and 7, with degree 3: the scan returns
  index 2, the first of the two children that hold 7, and the call returns the
  array 7, 3, 1, 7.
\<close>

theorem dmaxHeapify_swaps_leftmost_largest_child_witness:
  "heap_wf (heap_of [1, 3, 7, 7] 3) \<and>
   array (heap_of [1, 3, 7, 7] 3) ! nat 0 < array (heap_of [1, 3, 7, 7] 3) ! nat (3 * 0 + 1) \<and>
   dmaxHeapify_for (heap_of [1, 3, 7, 7] 3) 0 1 0 = Inr 2 \<and>
   array (heap_of [1, 3, 7, 7] 3) ! nat (3 * 0 + 1) < array (heap_of [1, 3, 7, 7] 3) ! nat 2 \<and>
   array (heap_of [1, 3, 7, 7] 3) ! nat (3 * 0 + 3) \<le> array (heap_of [1, 3, 7, 7] 3) ! nat 2 \<and>
   dmaxHeapify (heap_of [1, 3, 7, 7] 3) 0 = Inr (heap_of [7, 3, 1, 7] 3) \<and>
   array (heap_after (dmaxHeapify (heap_of [1, 3, 7, 7] 3) 0)) ! nat 0 =
     array (heap_of [1, 3, 7, 7] 3) ! nat 2"
proof -
  let ?h = "heap_of [1, 3, 7, 7] 3"
  have wf: "heap_wf ?h"
    by (rule heap_wf_heap_of) (simp_all add: MAX_CAPACITY_def c_int_def INT_MIN_def INT_MAX_def)
  have dm: "d_h ?h < INT_MAX" by (simp add: INT_MAX_def)
  have gt: "array ?h ! nat 0 < array ?h ! nat (3 * 0 + 1)"
    by (simp add: heap_of_def)
  then have ex: "\<exists>k. 1 \<le> k \<and> k \<le> d_h ?h \<and> d_h ?h * 0 + k < size_h ?h \<and>
      array ?h ! nat 0 < array ?h ! nat (d_h ?h * 0 + k)"
    by (intro exI [of _ 1]) simp
  from dmaxHeapify_swaps_leftmost_largest_child [OF wf order_refl dm ex] tie_scan
  obtain k where k: "1 \<le> k" "k \<le> 3" "(2::int) = 3 * 0 + k"
    and mx: "\<forall>k'. 1 \<le> k' \<and> k' \<le> 3 \<and> 3 * 0 + k' < (4::int) \<longrightarrow>
      array ?h ! nat (3 * 0 + k') \<le> array ?h ! nat 2"
    and left: "\<forall>k'. 1 \<le> k' \<and> k' < k \<longrightarrow> array ?h ! nat (3 * 0 + k') < array ?h ! nat 2"
    and fin: "array (heap_after (dmaxHeapify ?h 0)) ! nat 0 = array ?h ! nat 2"
    by auto
  from left have "1 \<le> (1::int) \<and> 1 < k \<longrightarrow> array ?h ! nat (3 * 0 + 1) < array ?h ! nat 2"
    by (rule spec)
  with k(3) have first: "array ?h ! nat (3 * 0 + 1) < array ?h ! nat 2" by simp
  from mx have "1 \<le> (3::int) \<and> (3::int) \<le> 3 \<and> 3 * 0 + 3 < (4::int) \<longrightarrow>
      array ?h ! nat (3 * 0 + 3) \<le> array ?h ! nat 2"
    by (rule spec)
  then have last: "array ?h ! nat (3 * 0 + 3) \<le> array ?h ! nat 2" by simp
  from wf gt tie_scan first last tie_heapify fin show ?thesis by simp
qed

text \<open>
  With the degree \<^verbatim>\<open>INT_MAX\<close> and the root 1 over the child 7, the scan finds the
  child and then steps its counter until \<^verbatim>\<open>++j\<close> overflows: it returns no index,
  and position 0 still holds 1.
\<close>

theorem dmaxHeapify_swaps_leftmost_largest_child_counterexample:
  "heap_wf (heap_of [1, 7] INT_MAX) \<and>
   INT_MAX * 0 + 1 < size_h (heap_of [1, 7] INT_MAX) \<and>
   array (heap_of [1, 7] INT_MAX) ! nat 0 <
     array (heap_of [1, 7] INT_MAX) ! nat (INT_MAX * 0 + 1) \<and>
   dmaxHeapify_for (heap_of [1, 7] INT_MAX) 0 1 0 = Inl (Undefined, heap_of [1, 7] INT_MAX) \<and>
   dmaxHeapify (heap_of [1, 7] INT_MAX) 0 = Inl (Undefined, heap_of [1, 7] INT_MAX) \<and>
   array (heap_after (dmaxHeapify (heap_of [1, 7] INT_MAX) 0)) ! nat 0 = 1"
proof -
  let ?h = "heap_of [1, 7] INT_MAX"
  have wf: "heap_wf ?h"
    by (rule heap_wf_heap_of) (simp_all add: MAX_CAPACITY_def c_int_def INT_MIN_def INT_MAX_def)
  have "(1::int) \<le> INT_MAX" by (simp add: INT_MAX_def)
  with dmaxHeapify_for_never_returns [of ?h 1 0 0]
  have scan: "dmaxHeapify_for ?h 0 1 0 = Inl (Undefined, ?h)" by simp
  then have run: "dmaxHeapify ?h 0 = Inl (Undefined, ?h)"
    by (subst dmaxHeapify.simps) simp
  have a: "array ?h ! nat 0 = 1" "array ?h ! nat (INT_MAX * 0 + 1) = 7"
    by (simp_all add: heap_of_def)
  from wf scan run a show ?thesis by simp
qed




end
